theory Spec2Isabelle
  imports Main
begin

section \<open>Completion signals and errors\<close>

text \<open>
  A completion signal (the settled value of a \<^verbatim>\<open>Promise<void>\<close>) is either a
  failure carrying an error, or success. \<open>MiddlewareNextError\<close> is the error class thrown
  by \<^verbatim>\<open>invokeMiddleware\<close>; \<open>TypeError\<close> is what the language raises when a value
  that is not a function is called; \<open>Thrown\<close> is any failure raised by a handler or by
  the terminal handler.
\<close>

datatype 'e error = MiddlewareNextError string | TypeError string | Thrown 'e

type_synonym 'e completion = "'e error + unit"

text \<open>
  Modelled from the spec: the module \<^verbatim>\<open>../errors\<close> that declares
  \<^verbatim>\<open>MiddlewareNextError\<close> is not part of the sources. The spec asks for a fixed error
  code string on this error kind, and the test suite of \<^verbatim>\<open>process.ts\<close> compares the
  field \<^verbatim>\<open>code\<close> of the caught error with the string below. No code is attributed to the
  other failures.
\<close>

fun errorCode :: "'e error \<Rightarrow> string option" where
  "errorCode (MiddlewareNextError msg) = Some ''slack_bolt_middleware_next_error''"
| "errorCode (TypeError msg) = None"
| "errorCode (Thrown e) = None"

section \<open>Handlers and their argument bundles\<close>

text \<open>
  The handlers are opaque to the executor. The body of a handler is modelled by the
  tree of what it does with the outside world: it completes (\<open>Done\<close>), it performs an
  observable side effect such as calling a spy (\<open>Emit\<close>), it reads or writes the state
  shared by the handlers (\<open>Read\<close>, \<open>Write\<close>), or it calls \<^verbatim>\<open>args.next()\<close> and
  goes on with the completion of that call (\<open>CallNext\<close>). \<open>CallNext\<close> is the awaited or
  returned call: the handler goes on once the promise of \<^verbatim>\<open>args.next()\<close> has settled.
  A handler that drops the promise of \<^verbatim>\<open>args.next()\<close> and lets the rest of the chain
  run in the background is not a body of this kind: the last section of the definitions
  has a machine for it. A handler that hands its \<^verbatim>\<open>next\<close> to another handler is not
  modelled.
\<close>

datatype ('e, 'u) body =
    Done "'e completion"
  | Emit string "('e, 'u) body"
  | Read "'u \<Rightarrow> ('e, 'u) body"
  | Write "'u \<Rightarrow> 'u" "('e, 'u) body"
  | CallNext "'e completion \<Rightarrow> ('e, 'u) body"

text \<open>
  The values a caller supplies (\<^verbatim>\<open>initialArgs\<close>, \<^verbatim>\<open>context\<close>, \<^verbatim>\<open>client\<close>,
  \<^verbatim>\<open>logger\<close>) are opaque data or functions of the caller. The argument object of a
  handler maps property names to entries: the closure
  \<^verbatim>\<open>() => invokeMiddleware(toCallMiddlewareIndex + 1)\<close> built for the handler at index
  \<open>i\<close> is the entry \<open>Capability i\<close>, every other entry is a supplied value.
\<close>

datatype ('e, 'u, 'd) val = Datum 'd | Callable "'u \<Rightarrow> 'e completion \<times> 'u"

datatype ('e, 'u, 'd) entry = Capability nat | Supplied "('e, 'u, 'd) val"

type_synonym ('e, 'u, 'd) args = "string \<rightharpoonup> ('e, 'u, 'd) entry"

type_synonym ('e, 'u, 'd) handler = "('e, 'u, 'd) args \<Rightarrow> ('e, 'u) body"

section \<open>State\<close>

text \<open>
  The world outside the executor is the state shared by the handlers and a history of
  what has been called, in order: \<open>Invoked i\<close> when the handler at index \<open>i\<close> is
  called, \<open>CalledLast\<close> when the terminal handler is called, \<open>Advanced i\<close> when the
  closure \<^verbatim>\<open>next\<close> built for the handler at index \<open>i\<close> is called, \<open>Effect l\<close> for
  a side effect of a handler. The history is a history variable: it is written and never
  read. The executor adds its one variable, \<^verbatim>\<open>lastCalledMiddlewareIndex\<close>, which
  no handler can reach.
\<close>

datatype event = Invoked nat | CalledLast | Advanced nat | Effect string

record 'u world =
  history :: "event list"
  user :: 'u

record 'u exec = "'u world" +
  lastCalledMiddlewareIndex :: int

text \<open>The parameters of \<^verbatim>\<open>processMiddleware\<close>, which \<^verbatim>\<open>invokeMiddleware\<close> closes over.\<close>

record ('e, 'u, 'd) frame =
  middleware :: "('e, 'u, 'd) handler list"
  initialArgs :: "string \<rightharpoonup> ('e, 'u, 'd) val"
  context' :: "('e, 'u, 'd) val"
  client :: "('e, 'u, 'd) val"
  logger :: "('e, 'u, 'd) val"
  last :: "'u \<Rightarrow> 'e completion \<times> 'u"

section \<open>The executor\<close>

text \<open>\<^verbatim>\<open>last()\<close>: the terminal handler acts on the shared state and completes.\<close>

definition callLast ::
  "('u \<Rightarrow> 'e completion \<times> 'u) \<Rightarrow> ('u, 'z) world_scheme \<Rightarrow> 'e completion \<times> ('u, 'z) world_scheme" where
  "callLast lst w =
     (case lst (user w) of (r, u') \<Rightarrow> (r, w\<lparr>history := history w @ [CalledLast], user := u'\<rparr>))"

text \<open>Calling a supplied value: a function of the caller runs, anything else is a type error.\<close>

definition callVal ::
  "('e, 'u, 'd) val \<Rightarrow> ('u, 'z) world_scheme \<Rightarrow> 'e completion \<times> ('u, 'z) world_scheme" where
  "callVal v w =
     (case v of
        Datum d \<Rightarrow> (Inl (TypeError ''args.next is not a function''), w)
      | Callable g \<Rightarrow> (case g (user w) of (r, u') \<Rightarrow> (r, w\<lparr>user := u'\<rparr>)))"

text \<open>Running the body of a handler, given what \<^verbatim>\<open>args.next()\<close> does.\<close>

primrec run ::
  "(('u, 'z) world_scheme \<Rightarrow> 'e completion \<times> ('u, 'z) world_scheme) \<Rightarrow> ('e, 'u) body
     \<Rightarrow> ('u, 'z) world_scheme \<Rightarrow> 'e completion \<times> ('u, 'z) world_scheme" where
  "run nxt (Done r) = (\<lambda>w. (r, w))"
| "run nxt (Emit l p) = (\<lambda>w. run nxt p (w\<lparr>history := history w @ [Effect l]\<rparr>))"
| "run nxt (Read f) = (\<lambda>w. run nxt (f (user w)) w)"
| "run nxt (Write g p) = (\<lambda>w. run nxt p (w\<lparr>user := g (user w)\<rparr>))"
| "run nxt (CallNext k) = (\<lambda>w. case nxt w of (r, w') \<Rightarrow> run nxt (k r) w')"

text \<open>
  The object literal
  \<^verbatim>\<open>{ next: () => invokeMiddleware(toCallMiddlewareIndex + 1), ...initialArgs, context, client, logger }\<close>:
  a property written later replaces an earlier one of the same name.
\<close>

definition mkArgs :: "('e, 'u, 'd) frame \<Rightarrow> nat \<Rightarrow> ('e, 'u, 'd) args" where
  "mkArgs F i =
     ([''next'' \<mapsto> Capability i] ++ (map_option Supplied \<circ> initialArgs F))
       (''context'' \<mapsto> Supplied (context' F),
        ''client'' \<mapsto> Supplied (client F),
        ''logger'' \<mapsto> Supplied (logger F))"

lemma mkArgs_next:
  "mkArgs F i ''next'' =
     (case initialArgs F ''next'' of None \<Rightarrow> Some (Capability i) | Some v \<Rightarrow> Some (Supplied v))"
  by (simp add: mkArgs_def map_add_def split: option.split)

function invokeMiddleware ::
  "('e, 'u, 'd) frame \<Rightarrow> nat \<Rightarrow> 'u exec \<Rightarrow> 'e completion \<times> 'u exec" where
  "invokeMiddleware F toCallMiddlewareIndex s =
    (if lastCalledMiddlewareIndex s \<ge> int toCallMiddlewareIndex
     then (Inl (MiddlewareNextError ''next() called multiple times''), s)
     else let s1 = s\<lparr>lastCalledMiddlewareIndex := int toCallMiddlewareIndex\<rparr> in
       if toCallMiddlewareIndex \<ge> length (middleware F) then callLast (last F) s1
       else let fn = middleware F ! toCallMiddlewareIndex;
                args = mkArgs F toCallMiddlewareIndex;
                s2 = s1\<lparr>history := history s1 @ [Invoked toCallMiddlewareIndex]\<rparr>
            in run (\<lambda>s'. case args ''next'' of
                       Some (Capability j) \<Rightarrow>
                         invokeMiddleware F (j + 1) (s'\<lparr>history := history s' @ [Advanced j]\<rparr>)
                     | Some (Supplied v) \<Rightarrow> callVal v s'
                     | None \<Rightarrow> (Inl (TypeError ''args.next is not a function''), s'))
                 (fn args) s2)"
  by pat_completeness auto
termination
proof (relation "measure (\<lambda>(F, i, s). length (middleware F) - i)")
  show "wf (measure (\<lambda>(F, i, s). length (middleware F) - i))" by simp
next
  fix F :: "('e, 'u, 'd) frame" and i :: nat and s s' :: "'u exec" and s1 fn args s2 x2 j
  assume "\<not> length (middleware F) \<le> i" and a: "args = mkArgs F i"
    and n: "args ''next'' = Some x2" and c: "x2 = Capability j"
  from a n c have "j = i" by (simp add: mkArgs_next split: option.splits)
  with \<open>\<not> length (middleware F) \<le> i\<close>
  show "((F, j + 1, s'\<lparr>history := history s' @ [Advanced j]\<rparr>), F, i, s)
          \<in> measure (\<lambda>(F, i, s). length (middleware F) - i)"
    by simp
qed

declare invokeMiddleware.simps [simp del]

text \<open>The default value of the parameter \<^verbatim>\<open>last\<close>: \<^verbatim>\<open>async () => { }\<close>.\<close>

definition defaultLast :: "'u \<Rightarrow> 'e completion \<times> 'u" where
  "defaultLast u = (Inr (), u)"

text \<open>
  \<^verbatim>\<open>processMiddleware\<close>. The last parameter is optional. The variable
  \<^verbatim>\<open>lastCalledMiddlewareIndex\<close> lives for one call: it is created after the test on the
  length of the chain and is gone when the call returns.
\<close>

definition processMiddleware ::
  "('e, 'u, 'd) handler list \<Rightarrow> (string \<rightharpoonup> ('e, 'u, 'd) val) \<Rightarrow> ('e, 'u, 'd) val
     \<Rightarrow> ('e, 'u, 'd) val \<Rightarrow> ('e, 'u, 'd) val \<Rightarrow> ('u \<Rightarrow> 'e completion \<times> 'u) option
     \<Rightarrow> 'u world \<Rightarrow> 'e completion \<times> 'u world" where
  "processMiddleware mw ia cx cl lg lastArg w =
    (let lst = (case lastArg of None \<Rightarrow> defaultLast | Some l \<Rightarrow> l) in
     if length mw \<le> 0 then callLast lst w
     else case invokeMiddleware
            \<lparr>middleware = mw, initialArgs = ia, context' = cx, client = cl, logger = lg, last = lst\<rparr>
            0 \<lparr>history = history w, user = user w, lastCalledMiddlewareIndex = - 1\<rparr>
          of (r, s) \<Rightarrow> (r, \<lparr>history = history s, user = user s\<rparr>))"

text \<open>What \<^verbatim>\<open>args.next()\<close> does for a handler that was given \<open>args\<close>.\<close>

definition argsNext ::
  "('e, 'u, 'd) frame \<Rightarrow> ('e, 'u, 'd) args \<Rightarrow> 'u exec \<Rightarrow> 'e completion \<times> 'u exec" where
  "argsNext F args s' =
     (case args ''next'' of
        Some (Capability j) \<Rightarrow> invokeMiddleware F (j + 1) (s'\<lparr>history := history s' @ [Advanced j]\<rparr>)
      | Some (Supplied v) \<Rightarrow> callVal v s'
      | None \<Rightarrow> (Inl (TypeError ''args.next is not a function''), s'))"

section \<open>Idioms of handler bodies\<close>

text \<open>
  \<^verbatim>\<open>await args.next(); p\<close>: a failure of the awaited call is raised in the handler,
  which ends with it; otherwise the handler goes on with \<open>p\<close>.
\<close>

definition awaitNext :: "('e, 'u) body \<Rightarrow> ('e, 'u) body" where
  "awaitNext p = CallNext (\<lambda>r. case r of Inl e \<Rightarrow> Done (Inl e) | Inr _ \<Rightarrow> p)"

text \<open>
  \<^verbatim>\<open>try { await args.next() } catch (e) { }; p\<close>: the handler goes on with \<open>p\<close>
  whatever the awaited call did.
\<close>

definition tryNext :: "('e, 'u) body \<Rightarrow> ('e, 'u) body" where
  "tryNext p = CallNext (\<lambda>r. p)"

definition finish :: "('e, 'u) body" where
  "finish = Done (Inr ())"

definition throw :: "'e \<Rightarrow> ('e, 'u) body" where
  "throw e = Done (Inl (Thrown e))"



text \<open>Handlers of the kind the test suite of \<^verbatim>\<open>process.ts\<close> uses, and a terminal handler
  that does nothing but complete.\<close>

definition advancing :: "string \<Rightarrow> ('e, 'u, 'd) handler" where
  "advancing l args = Emit l (awaitNext finish)"

definition halting :: "string \<Rightarrow> ('e, 'u, 'd) handler" where
  "halting l args = Emit l finish"

definition wrapping :: "string \<Rightarrow> string \<Rightarrow> ('e, 'u, 'd) handler" where
  "wrapping l l' args = Emit l (awaitNext (Emit l' finish))"

definition advancingTwice :: "string \<Rightarrow> string \<Rightarrow> ('e, 'u, 'd) handler" where
  "advancingTwice l l' args = awaitNext (Emit l (awaitNext (Emit l' finish)))"

definition spy :: "'u \<Rightarrow> 'e completion \<times> 'u" where
  "spy u = (Inr (), u)"

definition fresh :: "unit world" where
  "fresh = \<lparr>history = [], user = ()\<rparr>"

section \<open>Reading a history\<close>

text \<open>
  The indices of the successful steps recorded in a history, in order: a call of the
  handler at index \<open>j\<close> is the step \<open>j\<close>, a call of the terminal handler of a chain
  of length \<open>n\<close> is the step \<open>n\<close>.
\<close>

fun stepsOf :: "nat \<Rightarrow> event list \<Rightarrow> nat list" where
  "stepsOf n [] = []"
| "stepsOf n (Invoked j # es) = j # stepsOf n es"
| "stepsOf n (CalledLast # es) = n # stepsOf n es"
| "stepsOf n (Advanced j # es) = stepsOf n es"
| "stepsOf n (Effect l # es) = stepsOf n es"

text \<open>The calls of handlers and of the terminal handler in a history.\<close>

fun isCall :: "event \<Rightarrow> bool" where
  "isCall (Invoked j) = True"
| "isCall CalledLast = True"
| "isCall (Advanced j) = False"
| "isCall (Effect l) = False"

definition calls :: "event list \<Rightarrow> event list" where
  "calls h = filter isCall h"

text \<open>
  How a state of the executor can evolve, for a chain of length \<open>n\<close>: the counter does
  not decrease and stays within the chain, the history grows at its end, and the steps
  it gains are strictly increasing, above the old counter and at most the new one.
\<close>

definition extends :: "nat \<Rightarrow> 'u exec \<Rightarrow> 'u exec \<Rightarrow> bool" where
  "extends n s s' \<longleftrightarrow>
     lastCalledMiddlewareIndex s \<le> lastCalledMiddlewareIndex s'
     \<and> lastCalledMiddlewareIndex s' \<le> max (lastCalledMiddlewareIndex s) (int n)
     \<and> (\<exists>h. history s' = history s @ h
           \<and> sorted_wrt (<) (stepsOf n h)
           \<and> (\<forall>j \<in> set (stepsOf n h).
                 lastCalledMiddlewareIndex s < int j \<and> int j \<le> lastCalledMiddlewareIndex s')
           \<and> (\<forall>j. Invoked j \<in> set h \<longrightarrow> j < n))"

text \<open>What a handler can do to a state without calling \<^verbatim>\<open>args.next()\<close>: side effects
  and writes to the shared state.\<close>

definition quiet :: "('u, 'z) world_scheme \<Rightarrow> ('u, 'z) world_scheme \<Rightarrow> bool" where
  "quiet w w' \<longleftrightarrow> (\<exists>ls u. w' = w\<lparr>history := history w @ map Effect ls, user := u\<rparr>)"

text \<open>A frame with recognisable values and a terminal handler that only completes.\<close>

definition frameOf ::
  "('e, 'u, nat) handler list \<Rightarrow> (string \<rightharpoonup> ('e, 'u, nat) val) \<Rightarrow> ('e, 'u, nat) frame" where
  "frameOf mw ia =
     \<lparr>middleware = mw, initialArgs = ia, context' = Datum 1, client = Datum 2,
      logger = Datum 3, last = spy\<rparr>"

text \<open>The call of \<^verbatim>\<open>processMiddleware\<close> whose parameters are those of the frame \<open>F\<close>.\<close>

definition execute :: "('e, 'u, 'd) frame \<Rightarrow> 'u world \<Rightarrow> 'e completion \<times> 'u world" where
  "execute F w =
     processMiddleware (middleware F) (initialArgs F) (context' F) (client F) (logger F)
       (Some (last F)) w"






text \<open>
  In a history of a chain of length \<open>n\<close>, every call of a handler at an index
  \<open>j + 1\<close> comes right after a call of the closure \<^verbatim>\<open>next\<close> of the handler at index
  \<open>j\<close>, and, when the chain is not empty, the call of the terminal handler comes right
  after a call of the closure of the last handler.
\<close>

definition announced :: "nat \<Rightarrow> event list \<Rightarrow> bool" where
  "announced n h \<longleftrightarrow>
     (\<forall>k<length h.
        (\<forall>j. h ! k = Invoked (Suc j) \<longrightarrow> 0 < k \<and> h ! (k - 1) = Advanced j)
        \<and> (h ! k = CalledLast \<longrightarrow> 0 < n \<longrightarrow> 0 < k \<and> h ! (k - 1) = Advanced (n - 1)))"

section \<open>Handler bodies and their first call of next; the chain of the spec\<close>













section \<open>Handlers that do not await their call of next\<close>

text \<open>
  The handler bodies above go on only when their call of \<^verbatim>\<open>args.next()\<close> has settled.
  A handler can also call \<^verbatim>\<open>args.next()\<close> and drop the promise, as the handler
  \<^verbatim>\<open>fn2\<close> of the test \<^verbatim>\<open>should call the next middleware as soon as next() is called\<close>
  does. What runs first then depends on the scheduling of asynchronous functions, which
  this section models as far as the order of the calls depends on it. The code of an
  asynchronous function completes (\<open>Return\<close>), performs a side effect (\<open>Log\<close>), awaits
  its call of \<^verbatim>\<open>args.next()\<close> (\<open>AwaitNext\<close>), calls \<^verbatim>\<open>args.next()\<close> and drops the
  promise (\<open>DropNext\<close>), or awaits a timer (\<open>AwaitTimer\<close>).
\<close>

datatype 'e code =
    Return "'e completion"
  | Log string "'e code"
  | AwaitNext "'e completion \<Rightarrow> 'e code"
  | DropNext "'e code"
  | AwaitTimer "'e code"

text \<open>
  A thread is a function that runs (\<open>now\<close>, called at the index \<open>at\<close>: a handler, or
  the terminal handler when the index is past the end), below it the handlers that await
  it, each with what it does once its awaited call has settled. The thread of the call made
  by \<^verbatim>\<open>processMiddleware\<close> is the main one.
\<close>

record 'e thread =
  now :: "'e code"
  at :: nat
  callers :: "(nat \<times> ('e completion \<Rightarrow> 'e code)) list"
  main :: bool

text \<open>What is observed: the events of the history, the moment the terminal handler
  completes, and the moment the promise of \<^verbatim>\<open>processMiddleware\<close> settles.\<close>

datatype 'e obs = Seen event | LastSettled "'e completion" | AllSettled "'e completion"

text \<open>
  What waits for the synchronous code to end: a thread whose awaited promise has settled,
  or the promise of \<^verbatim>\<open>processMiddleware\<close>, which settles some turns of the job queue
  after the function of the main thread has returned.
\<close>

datatype 'e job = Resume "'e thread" | Settle "'e completion"

text \<open>
  The machine: the variable \<^verbatim>\<open>lastCalledMiddlewareIndex\<close>, what has been observed, the
  threads that run synchronously (the first one runs, the next ones called it without
  awaiting), the jobs that wait for the synchronous code to end, and the threads that
  await a timer.
\<close>

record 'e machine =
  counter :: int
  observed :: "'e obs list"
  ready :: "'e thread list"
  micro :: "'e job list"
  timers :: "'e thread list"

text \<open>The synchronous part of \<^verbatim>\<open>invokeMiddleware\<close>: the test on the counter, the
  assignment, and the choice between \<^verbatim>\<open>last\<close> and the handler.\<close>

definition enter ::
  "'e code list \<Rightarrow> 'e code \<Rightarrow> nat \<Rightarrow> 'e machine \<Rightarrow> 'e error + 'e code \<times> 'e machine" where
  "enter mw lst toCallMiddlewareIndex m =
    (if counter m \<ge> int toCallMiddlewareIndex
     then Inl (MiddlewareNextError ''next() called multiple times'')
     else let m1 = m\<lparr>counter := int toCallMiddlewareIndex\<rparr> in
       if toCallMiddlewareIndex \<ge> length mw
       then Inr (lst, m1\<lparr>observed := observed m1 @ [Seen CalledLast]\<rparr>)
       else Inr (mw ! toCallMiddlewareIndex,
                 m1\<lparr>observed := observed m1 @ [Seen (Invoked toCallMiddlewareIndex)]\<rparr>))"

text \<open>A call of \<^verbatim>\<open>args.next()\<close> by the function that runs in the thread \<open>t\<close>; the
  terminal handler is given no arguments.\<close>

definition advance ::
  "'e code list \<Rightarrow> 'e code \<Rightarrow> 'e thread \<Rightarrow> 'e machine \<Rightarrow> 'e error + 'e code \<times> 'e machine" where
  "advance mw lst t m =
    (if at t \<ge> length mw then Inl (TypeError ''args.next is not a function'')
     else enter mw lst (at t + 1) (m\<lparr>observed := observed m @ [Seen (Advanced (at t))]\<rparr>))"

text \<open>
  What the function that runs does next; \<open>t\<close> is its thread and \<open>rs\<close> are the threads
  that called it without awaiting. A function that completes settles its promise: the
  handler that awaits it becomes a job. A call that is awaited runs the called function
  in the thread of the caller; when the call is refused, the caller becomes a job, with
  the failure. A call that is not awaited runs the called function at once, in a thread of
  its own, and the caller goes on when that function completes or waits.
\<close>

definition perform ::
  "'e code list \<Rightarrow> 'e code \<Rightarrow> 'e thread \<Rightarrow> 'e thread list \<Rightarrow> 'e machine \<Rightarrow> 'e machine" where
  "perform mw lst t rs m =
    (case now t of
       Return r \<Rightarrow>
         (let m1 = (if at t \<ge> length mw then m\<lparr>observed := observed m @ [LastSettled r]\<rparr> else m)
          in case callers t of
               [] \<Rightarrow>
                 (if main t then m1\<lparr>ready := rs, micro := micro m1 @ [Settle r]\<rparr>
                  else m1\<lparr>ready := rs\<rparr>)
             | (i, k) # cs \<Rightarrow>
                 m1\<lparr>ready := rs,
                    micro := micro m1 @ [Resume (t\<lparr>now := k r, at := i, callers := cs\<rparr>)]\<rparr>)
     | Log l p \<Rightarrow> m\<lparr>observed := observed m @ [Seen (Effect l)], ready := t\<lparr>now := p\<rparr> # rs\<rparr>
     | AwaitTimer p \<Rightarrow> m\<lparr>ready := rs, timers := timers m @ [t\<lparr>now := p\<rparr>]\<rparr>
     | AwaitNext k \<Rightarrow>
         (case advance mw lst t m of
            Inl e \<Rightarrow>
              m\<lparr>observed := (if at t \<ge> length mw then observed m
                            else observed m @ [Seen (Advanced (at t))]),
                ready := rs, micro := micro m @ [Resume (t\<lparr>now := k (Inl e)\<rparr>)]\<rparr>
          | Inr (c, m') \<Rightarrow>
              m'\<lparr>ready := t\<lparr>now := c, at := at t + 1, callers := (at t, k) # callers t\<rparr> # rs\<rparr>)
     | DropNext p \<Rightarrow>
         (case advance mw lst t m of
            Inl e \<Rightarrow>
              (if at t \<ge> length mw then m\<lparr>ready := t\<lparr>now := Return (Inl e)\<rparr> # rs\<rparr>
               else m\<lparr>observed := observed m @ [Seen (Advanced (at t))], ready := t\<lparr>now := p\<rparr> # rs\<rparr>)
          | Inr (c, m') \<Rightarrow>
              m'\<lparr>ready := \<lparr>now = c, at = at t + 1, callers = [], main = False\<rparr>
                            # t\<lparr>now := p\<rparr> # rs\<rparr>))"

text \<open>The ways to take one element out of a list.\<close>

fun picks :: "'a list \<Rightarrow> ('a \<times> 'a list) list" where
  "picks [] = []"
| "picks (x # xs) = (x, xs) # map (\<lambda>(y, ys). (y, x # ys)) (picks xs)"

text \<open>
  The machines that one step leads to. Synchronous code runs first, to its end. When
  none is left, any one of the jobs runs; when no job is left either, any one of the
  timers fires. The order in which jobs run and timers fire depends on the number of turns
  each promise takes to settle and on the delays, which the code above does not tell:
  every order is a run of the machine.
\<close>

definition steps :: "'e code list \<Rightarrow> 'e code \<Rightarrow> 'e machine \<Rightarrow> 'e machine list" where
  "steps mw lst m =
    (case ready m of
       t # rs \<Rightarrow> [perform mw lst t rs m]
     | [] \<Rightarrow>
         (if micro m \<noteq> []
          then map (\<lambda>(j, js). case j of
                       Resume t \<Rightarrow> m\<lparr>ready := [t], micro := js\<rparr>
                     | Settle r \<Rightarrow> m\<lparr>observed := observed m @ [AllSettled r], micro := js\<rparr>)
                 (picks (micro m))
          else map (\<lambda>(t, ts). m\<lparr>ready := [t], timers := ts\<rparr>) (picks (timers m))))"

text \<open>\<^verbatim>\<open>processMiddleware\<close> on this machine.\<close>

definition start :: "'e code list \<Rightarrow> 'e code \<Rightarrow> 'e machine" where
  "start mw lst =
    (if length mw \<le> 0
     then \<lparr>counter = - 1, observed = [Seen CalledLast],
           ready = [\<lparr>now = lst, at = 0, callers = [], main = True\<rparr>], micro = [], timers = []\<rparr>
     else case enter mw lst 0 \<lparr>counter = - 1, observed = [], ready = [], micro = [], timers = []\<rparr> of
            Inr (c, m) \<Rightarrow> m\<lparr>ready := [\<lparr>now = c, at = 0, callers = [], main = True\<rparr>]\<rparr>
          | Inl e \<Rightarrow> \<lparr>counter = - 1, observed = [], ready = [], micro = [Settle (Inl e)], timers = []\<rparr>)"

text \<open>The machines that the machine can be in after \<open>n\<close> steps, or at rest before, one
  for each order of the jobs and timers.\<close>

fun runs :: "nat \<Rightarrow> 'e code list \<Rightarrow> 'e code \<Rightarrow> 'e machine \<Rightarrow> 'e machine list" where
  "runs 0 mw lst m = [m]"
| "runs (Suc n) mw lst m =
     (if steps mw lst m = [] then [m] else concat (map (runs n mw lst) (steps mw lst m)))"

text \<open>A handler with a side effect before and after its awaited call of \<^verbatim>\<open>next\<close>, a
  handler that calls \<^verbatim>\<open>next\<close> and drops the promise, and a terminal handler that has its
  side effect after a timer.\<close>

definition awaiting :: "string \<Rightarrow> string \<Rightarrow> 'e code" where
  "awaiting l l' =
     Log l (AwaitNext (\<lambda>r. case r of Inl e \<Rightarrow> Return (Inl e) | Inr _ \<Rightarrow> Log l' (Return (Inr ()))))"

definition dropping :: "string \<Rightarrow> 'e code" where
  "dropping l = Log l (DropNext (Return (Inr ())))"

definition deferred :: "string \<Rightarrow> 'e code" where
  "deferred l = AwaitTimer (Log l (Return (Inr ())))"

text \<open>
  A handler body of the sequential model, over a shared state with nothing in it, as code
  for the machine: every call of \<^verbatim>\<open>args.next()\<close> is awaited.
\<close>

primrec codeOf :: "('e, unit) body \<Rightarrow> 'e code" where
  "codeOf (Done r) = Return r"
| "codeOf (Emit l p) = Log l (codeOf p)"
| "codeOf (Read f) = codeOf (f ())"
| "codeOf (Write g p) = codeOf p"
| "codeOf (CallNext k) = AwaitNext (\<lambda>r. codeOf (k r))"

text \<open>The chain of a frame as code, each handler with the bundle it is called with.\<close>

definition codes :: "('e, unit, 'd) frame \<Rightarrow> 'e code list" where
  "codes F = map (\<lambda>i. codeOf ((middleware F ! i) (mkArgs F i))) [0..<length (middleware F)]"

text \<open>The events of the history among what the machine has observed.\<close>

fun seen :: "'e obs list \<Rightarrow> event list" where
  "seen [] = []"
| "seen (Seen e # os) = e # seen os"
| "seen (LastSettled r # os) = seen os"
| "seen (AllSettled r # os) = seen os"

text \<open>A machine with one thread, running; and the machines that a machine comes to when
  each step leaves no choice.\<close>

definition solo :: "int \<Rightarrow> 'e obs list \<Rightarrow> 'e thread \<Rightarrow> 'e machine" where
  "solo c os t = \<lparr>counter = c, observed = os, ready = [t], micro = [], timers = []\<rparr>"

inductive reach :: "'e code list \<Rightarrow> 'e code \<Rightarrow> 'e machine \<Rightarrow> 'e machine \<Rightarrow> bool"
  for mw :: "'e code list" and lst :: "'e code" where
  here: "reach mw lst m m"
| after: "steps mw lst m = [m'] \<Longrightarrow> reach mw lst m' m'' \<Longrightarrow> reach mw lst m m''"

text \<open>
  The machine keeps the steps it has observed strictly increasing, at most the counter, and
  the counter within a chain of length \<open>n\<close>.
\<close>

definition ordered :: "nat \<Rightarrow> 'e machine \<Rightarrow> bool" where
  "ordered n m \<longleftrightarrow>
     sorted_wrt (<) (stepsOf n (seen (observed m)))
     \<and> (\<forall>j \<in> set (stepsOf n (seen (observed m))). int j \<le> counter m)
     \<and> counter m \<le> int n"

text \<open>
  The threads of a machine; the indices of the functions of a thread that have been called
  and have not completed, the one that runs first; and those of all threads.
\<close>

fun resumes :: "'e job list \<Rightarrow> 'e thread list" where
  "resumes [] = []"
| "resumes (Resume t # js) = t # resumes js"
| "resumes (Settle r # js) = resumes js"

definition threads :: "'e machine \<Rightarrow> 'e thread list" where
  "threads m = ready m @ resumes (micro m) @ timers m"

definition indices :: "'e thread \<Rightarrow> nat list" where
  "indices t = at t # map fst (callers t)"

definition pending :: "'e machine \<Rightarrow> nat list" where
  "pending m = concat (map indices (threads m))"

text \<open>Code that awaits every call of \<^verbatim>\<open>args.next()\<close> it makes.\<close>

primrec neverDrops :: "'e code \<Rightarrow> bool" where
  "neverDrops (Return r) = True"
| "neverDrops (Log l p) = neverDrops p"
| "neverDrops (AwaitNext k) = (\<forall>r. neverDrops (k r))"
| "neverDrops (DropNext p) = False"
| "neverDrops (AwaitTimer p) = neverDrops p"

text \<open>
  In a thread, given by the indices of its functions: every function at an index above
  \<open>i\<close> was called by the function right below it, which awaits it and is at the index
  before.
\<close>

fun stacked :: "nat \<Rightarrow> nat list \<Rightarrow> bool" where
  "stacked i [] = True"
| "stacked i [x] = (x \<le> i)"
| "stacked i (x # y # zs) = ((i < x \<longrightarrow> x = Suc y) \<and> stacked i (y # zs))"

text \<open>
  Invariants of the machine. Every function that has been called and has not completed
  is at an index that the counter has reached, and no two of them are at the same index
  (\<open>accounted\<close>). The calls made so far are the first ones of the chain followed by
  the terminal handler, as many as the counter tells (\<open>consecutive\<close>). From the index
  \<open>i\<close> on, the functions are stacked on the function that awaits them, and their code
  awaits every call of \<^verbatim>\<open>args.next()\<close> (\<open>awaitedFrom\<close>).
\<close>

definition accounted :: "'e machine \<Rightarrow> bool" where
  "accounted m \<longleftrightarrow>
     (\<forall>j \<in> set (pending m). int j \<le> counter m) \<and> (\<forall>j. count_list (pending m) j \<le> 1)"


definition awaitedFrom :: "'e code list \<Rightarrow> nat \<Rightarrow> 'e machine \<Rightarrow> bool" where
  "awaitedFrom mw i m \<longleftrightarrow>
     (\<forall>t \<in> set (threads m).
        stacked i (indices t)
        \<and> (i \<le> at t \<and> at t < length mw \<longrightarrow> neverDrops (now t))
        \<and> (\<forall>(j, k) \<in> set (callers t). i \<le> j \<longrightarrow> (\<forall>r. neverDrops (k r))))"

text \<open>The side effect that code is about to have, if that is what it does next.\<close>

fun aboutTo :: "'e code \<Rightarrow> string option" where
  "aboutTo (Log l p) = Some l"
| "aboutTo (Return r) = None"
| "aboutTo (AwaitNext k) = None"
| "aboutTo (DropNext p) = None"
| "aboutTo (AwaitTimer p) = None"

lemmas eval_simps = processMiddleware_def invokeMiddleware.simps mkArgs_next callLast_def
  callVal_def advancing_def halting_def wrapping_def advancingTwice_def awaitNext_def
  tryNext_def finish_def throw_def spy_def fresh_def defaultLast_def Let_def

section \<open>Unfolding one step\<close>

lemma invokeMiddleware_duplicate:
  "int i \<le> lastCalledMiddlewareIndex s \<Longrightarrow>
   invokeMiddleware F i s = (Inl (MiddlewareNextError ''next() called multiple times''), s)"
  by (simp add: invokeMiddleware.simps)

lemma invokeMiddleware_last:
  "lastCalledMiddlewareIndex s < int i \<Longrightarrow> length (middleware F) \<le> i \<Longrightarrow>
   invokeMiddleware F i s = callLast (last F) (s\<lparr>lastCalledMiddlewareIndex := int i\<rparr>)"
  by (simp add: invokeMiddleware.simps)

lemma invokeMiddleware_handler:
  "lastCalledMiddlewareIndex s < int i \<Longrightarrow> i < length (middleware F) \<Longrightarrow>
   invokeMiddleware F i s =
     run (argsNext F (mkArgs F i)) ((middleware F ! i) (mkArgs F i))
       (s\<lparr>lastCalledMiddlewareIndex := int i, history := history s @ [Invoked i]\<rparr>)"
proof -
  have e: "argsNext F (mkArgs F i) =
       (\<lambda>s'. case mkArgs F i ''next'' of
                Some (Capability j) \<Rightarrow>
                  invokeMiddleware F (j + 1) (s'\<lparr>history := history s' @ [Advanced j]\<rparr>)
              | Some (Supplied v) \<Rightarrow> callVal v s'
              | None \<Rightarrow> (Inl (TypeError ''args.next is not a function''), s'))"
    by (rule ext) (simp add: argsNext_def)
  assume "lastCalledMiddlewareIndex s < int i" "i < length (middleware F)"
  then show ?thesis
    by (subst invokeMiddleware.simps) (simp add: e Let_def)
qed

lemma argsNext_capability:
  "initialArgs F ''next'' = None \<Longrightarrow>
   argsNext F (mkArgs F i) s =
     invokeMiddleware F (i + 1) (s\<lparr>history := history s @ [Advanced i]\<rparr>)"
  by (simp add: argsNext_def mkArgs_next)

lemma argsNext_supplied:
  "initialArgs F ''next'' = Some v \<Longrightarrow> argsNext F (mkArgs F i) s = callVal v s"
  by (simp add: argsNext_def mkArgs_next)

section \<open>The empty chain\<close>

text \<open>
  C7. For the empty chain, \<^verbatim>\<open>processMiddleware\<close> is the call of the terminal handler
  and nothing else: the history gains the one event \<open>CalledLast\<close>, the shared state is
  what the terminal handler made of it, the completion is the terminal handler's, and
  no state of the executor is involved (the result is the call of \<open>last\<close> on the world
  as it was given). Without the last parameter the terminal handler is a no-op that
  succeeds, and the call completes with success and leaves the shared state as it was.
\<close>

theorem empty_chain_calls_last_once:
  "processMiddleware [] ia cx cl lg (Some lst) w = callLast lst w
   \<and> fst (processMiddleware [] ia cx cl lg (Some lst) w) = fst (lst (user w))
   \<and> history (snd (processMiddleware [] ia cx cl lg (Some lst) w)) = history w @ [CalledLast]
   \<and> user (snd (processMiddleware [] ia cx cl lg (Some lst) w)) = snd (lst (user w))
   \<and> processMiddleware [] ia cx cl lg None w
       = (Inr (), w\<lparr>history := history w @ [CalledLast]\<rparr>)"
  by (simp add: processMiddleware_def callLast_def defaultLast_def split: prod.split)

section \<open>Running a handler body\<close>

lemma run_invariant:
  assumes eff: "\<And>w l. P w \<Longrightarrow> P (w\<lparr>history := history w @ [Effect l]\<rparr>)"
    and wr: "\<And>w u. P w \<Longrightarrow> P (w\<lparr>user := u\<rparr>)"
    and nx: "\<And>w. P w \<Longrightarrow> P (snd (nxt w))"
    and w: "P w"
  shows "P (snd (run nxt p w))"
  using w
proof (induction p arbitrary: w)
  case (Done r)
  then show ?case by simp
next
  case (Emit l p)
  then show ?case by (simp add: eff)
next
  case (Read f)
  then show ?case by simp
next
  case (Write g p)
  then show ?case by (simp add: wr)
next
  case (CallNext k)
  from CallNext.prems have "P (snd (nxt w))" by (rule nx)
  then show ?case using CallNext.IH by (simp split: prod.split) (metis rangeI snd_conv)
qed


section \<open>The counter and the history\<close>

lemma stepsOf_append: "stepsOf n (xs @ ys) = stepsOf n xs @ stepsOf n ys"
  by (induction n xs rule: stepsOf.induct) simp_all

lemma extends_refl: "extends n s s"
  by (simp add: extends_def)

lemma extends_trans:
  assumes "extends n s s1" and "extends n s1 s2"
  shows "extends n s s2"
proof -
  let ?c = lastCalledMiddlewareIndex
  from assms(1) obtain h1 where h1: "history s1 = history s @ h1" "sorted_wrt (<) (stepsOf n h1)"
      "\<forall>j \<in> set (stepsOf n h1). ?c s < int j \<and> int j \<le> ?c s1"
      "\<forall>j. Invoked j \<in> set h1 \<longrightarrow> j < n"
    and c1: "?c s \<le> ?c s1" "?c s1 \<le> max (?c s) (int n)"
    unfolding extends_def by blast
  from assms(2) obtain h2 where h2: "history s2 = history s1 @ h2" "sorted_wrt (<) (stepsOf n h2)"
      "\<forall>j \<in> set (stepsOf n h2). ?c s1 < int j \<and> int j \<le> ?c s2"
      "\<forall>j. Invoked j \<in> set h2 \<longrightarrow> j < n"
    and c2: "?c s1 \<le> ?c s2" "?c s2 \<le> max (?c s1) (int n)"
    unfolding extends_def by blast
  have a: "history s2 = history s @ (h1 @ h2)" using h1(1) h2(1) by simp
  have b: "sorted_wrt (<) (stepsOf n (h1 @ h2))"
    unfolding stepsOf_append sorted_wrt_append using h1(2,3) h2(2,3) by fastforce
  have c: "\<forall>j \<in> set (stepsOf n (h1 @ h2)). ?c s < int j \<and> int j \<le> ?c s2"
    unfolding stepsOf_append using h1(3) h2(3) c1 c2 by fastforce
  have d: "\<forall>j. Invoked j \<in> set (h1 @ h2) \<longrightarrow> j < n" using h1(4) h2(4) by auto
  have e: "?c s \<le> ?c s2" "?c s2 \<le> max (?c s) (int n)" using c1 c2 by auto
  show ?thesis unfolding extends_def using a b c d e by blast
qed

lemma extends_quiet:
  "stepsOf n h = [] \<Longrightarrow> \<forall>j. Invoked j \<notin> set h \<Longrightarrow>
   extends n s (s\<lparr>history := history s @ h\<rparr>)"
  by (simp add: extends_def)

lemma extends_user: "extends n s (s\<lparr>user := u\<rparr>)"
  by (simp add: extends_def)

lemma extends_callVal: "extends n s (snd (callVal v s))"
  by (cases v) (simp_all add: callVal_def extends_refl extends_user split: prod.split)

lemma run_extends:
  assumes "\<And>w. extends n w (snd (nxt w))"
  shows "extends n s (snd (run nxt p s))"
proof (rule run_invariant[where P = "extends n s"])
  fix w l assume "extends n s w"
  moreover have "extends n w (w\<lparr>history := history w @ [Effect l]\<rparr>)"
    by (rule extends_quiet) simp_all
  ultimately show "extends n s (w\<lparr>history := history w @ [Effect l]\<rparr>)" by (rule extends_trans)
next
  fix w u assume "extends n s w"
  then show "extends n s (w\<lparr>user := u\<rparr>)" using extends_user by (rule extends_trans)
next
  fix w assume "extends n s w"
  then show "extends n s (snd (nxt w))" using assms by (rule extends_trans)
next
  show "extends n s s" by (rule extends_refl)
qed

lemma invokeMiddleware_extends:
  "i \<le> length (middleware F) \<Longrightarrow> extends (length (middleware F)) s (snd (invokeMiddleware F i s))"
proof (induction "length (middleware F) - i" arbitrary: i s)
  case 0
  then have i: "i = length (middleware F)" by simp
  show ?case
  proof (cases "int i \<le> lastCalledMiddlewareIndex s")
    case True
    then show ?thesis by (simp add: invokeMiddleware_duplicate extends_refl)
  next
    case False
    then show ?thesis using i
      by (simp add: invokeMiddleware_last callLast_def extends_def split: prod.split)
  qed
next
  case (Suc k)
  let ?n = "length (middleware F)"
  from Suc.hyps(2) have i: "i < ?n" by simp
  show ?case
  proof (cases "int i \<le> lastCalledMiddlewareIndex s")
    case True
    then show ?thesis by (simp add: invokeMiddleware_duplicate extends_refl)
  next
    case False
    let ?s2 = "s\<lparr>lastCalledMiddlewareIndex := int i, history := history s @ [Invoked i]\<rparr>"
    have nx: "extends ?n w (snd (argsNext F (mkArgs F i) w))" for w
    proof (cases "initialArgs F ''next''")
      case None
      have "extends ?n w (w\<lparr>history := history w @ [Advanced i]\<rparr>)"
        by (rule extends_quiet) simp_all
      moreover have "extends ?n (w\<lparr>history := history w @ [Advanced i]\<rparr>)
          (snd (invokeMiddleware F (i + 1) (w\<lparr>history := history w @ [Advanced i]\<rparr>)))"
        using Suc.hyps(1)[of "i + 1"] Suc.hyps(2) i by simp
      ultimately show ?thesis by (simp add: argsNext_capability[OF None]) (rule extends_trans)
    next
      case (Some v)
      then show ?thesis by (simp add: argsNext_supplied extends_callVal)
    qed
    have a: "extends ?n s ?s2" using False i by (simp add: extends_def)
    have b: "extends ?n ?s2 (snd (run (argsNext F (mkArgs F i)) ((middleware F ! i) (mkArgs F i)) ?s2))"
      by (rule run_extends) (rule nx)
    from False i show ?thesis
      using extends_trans[OF a b] by (simp add: invokeMiddleware_handler)
  qed
qed

lemma count_list_distinct: "distinct xs \<Longrightarrow> count_list xs x \<le> 1"
  by (induction xs) (auto simp: count_list_0_iff)

lemma count_Invoked_stepsOf: "count_list h (Invoked i) \<le> count_list (stepsOf n h) i"
  by (induction n h rule: stepsOf.induct) auto

lemma count_CalledLast_stepsOf: "count_list h CalledLast \<le> count_list (stepsOf n h) n"
  by (induction n h rule: stepsOf.induct) auto

lemma start_extends:
  assumes "mw \<noteq> []" and "processMiddleware mw ia cx cl lg lastArg w = (r, w')"
  obtains F s where "middleware F = mw"
    and "initialArgs F = ia"
    and "(r, s) = invokeMiddleware F 0 \<lparr>history = history w, user = user w, lastCalledMiddlewareIndex = - 1\<rparr>"
    and "history w' = history s" and "user w' = user s"
    and "extends (length mw) \<lparr>history = history w, user = user w, lastCalledMiddlewareIndex = - 1\<rparr> s"
proof -
  let ?F = "\<lparr>middleware = mw, initialArgs = ia, context' = cx, client = cl, logger = lg,
             last = (case lastArg of None \<Rightarrow> defaultLast | Some l \<Rightarrow> l)\<rparr>"
  let ?s0 = "\<lparr>history = history w, user = user w, lastCalledMiddlewareIndex = - 1\<rparr>"
  obtain r0 s where rs: "invokeMiddleware ?F 0 ?s0 = (r0, s)" by (cases "invokeMiddleware ?F 0 ?s0")
  with assms have e: "r = r0" "w' = \<lparr>history = history s, user = user s\<rparr>"
    by (auto simp: processMiddleware_def Let_def)
  have "extends (length (middleware ?F)) ?s0 (snd (invokeMiddleware ?F 0 ?s0))"
    by (rule invokeMiddleware_extends) simp
  with rs have "extends (length mw) ?s0 s" by simp
  with rs e show thesis by (intro that[of ?F s]) simp_all
qed

section \<open>Handlers between their calls of next\<close>

lemma quiet_refl: "quiet w w"
proof -
  have "w = w\<lparr>history := history w @ map Effect [], user := user w\<rparr>" by simp
  then show ?thesis unfolding quiet_def by blast
qed

lemma quiet_trans: "quiet w w1 \<Longrightarrow> quiet w1 w2 \<Longrightarrow> quiet w w2"
proof -
  assume "quiet w w1" "quiet w1 w2"
  then obtain ls u ls' u' where a: "w1 = w\<lparr>history := history w @ map Effect ls, user := u\<rparr>"
    and b: "w2 = w1\<lparr>history := history w1 @ map Effect ls', user := u'\<rparr>"
    unfolding quiet_def by blast
  then have "w2 = w\<lparr>history := history w @ map Effect (ls @ ls'), user := u'\<rparr>" by simp
  then show ?thesis unfolding quiet_def by blast
qed

lemma quiet_Effect: "quiet w (w\<lparr>history := history w @ [Effect l]\<rparr>)"
proof -
  have "w\<lparr>history := history w @ [Effect l]\<rparr> = w\<lparr>history := history w @ map Effect [l], user := user w\<rparr>"
    by simp
  then show ?thesis unfolding quiet_def by blast
qed

lemma quiet_user: "quiet w (w\<lparr>user := u\<rparr>)"
proof -
  have "w\<lparr>user := u\<rparr> = w\<lparr>history := history w @ map Effect [], user := u\<rparr>" by simp
  then show ?thesis unfolding quiet_def by blast
qed

lemma calls_append: "calls (xs @ ys) = calls xs @ calls ys"
  by (simp add: calls_def)

lemma calls_Effects: "calls (map Effect ls) = []"
  by (induction ls) (simp_all add: calls_def)

lemma quiet_calls: "quiet w w' \<Longrightarrow> calls (history w') = calls (history w)"
  by (auto simp: quiet_def calls_append calls_Effects)






section \<open>The counter never goes back\<close>

lemma invokeMiddleware_counter_mono:
  fixes s :: "'a exec"
  shows "lastCalledMiddlewareIndex s \<le> lastCalledMiddlewareIndex (snd (invokeMiddleware F i s))"
proof (induction "length (middleware F) - i" arbitrary: i s)
  case 0
  show ?case
  proof (cases "int i \<le> lastCalledMiddlewareIndex s")
    case True
    then show ?thesis by (simp add: invokeMiddleware_duplicate)
  next
    case False
    with 0 show ?thesis
      by (simp add: invokeMiddleware_last callLast_def split: prod.split)
  qed
next
  case (Suc k)
  let ?c = lastCalledMiddlewareIndex
  from Suc.hyps(2) have i: "i < length (middleware F)" by simp
  show ?case
  proof (cases "int i \<le> ?c s")
    case True
    then show ?thesis by (simp add: invokeMiddleware_duplicate)
  next
    case False
    let ?s2 = "s\<lparr>lastCalledMiddlewareIndex := int i, history := history s @ [Invoked i]\<rparr>"
    have "?c s \<le> ?c (snd (run (argsNext F (mkArgs F i)) ((middleware F ! i) (mkArgs F i)) ?s2))"
    proof (rule run_invariant[where P = "\<lambda>w. ?c s \<le> ?c w"])
      fix w :: "'a exec" assume w: "?c s \<le> ?c w"
      show "?c s \<le> ?c (snd (argsNext F (mkArgs F i) w))"
      proof (cases "initialArgs F ''next''")
        case None
        have "?c (w\<lparr>history := history w @ [Advanced i]\<rparr>)
            \<le> ?c (snd (invokeMiddleware F (i + 1) (w\<lparr>history := history w @ [Advanced i]\<rparr>)))"
          using Suc.hyps(1)[of "i + 1" "w\<lparr>history := history w @ [Advanced i]\<rparr>"] Suc.hyps(2)
          by simp
        with w show ?thesis by (simp add: argsNext_capability[OF None])
      next
        case (Some v)
        with w show ?thesis
          by (cases v) (simp_all add: argsNext_supplied callVal_def split: prod.split)
      qed
    qed (use False in simp_all)
    with False i show ?thesis by (simp add: invokeMiddleware_handler)
  qed
qed

lemma invokeMiddleware_counter_reached:
  fixes s :: "'a exec"
  shows "int i \<le> lastCalledMiddlewareIndex (snd (invokeMiddleware F i s))"
proof (cases "int i \<le> lastCalledMiddlewareIndex s")
  case True
  then show ?thesis by (simp add: invokeMiddleware_duplicate)
next
  case False
  let ?c = lastCalledMiddlewareIndex
  show ?thesis
  proof (cases "i < length (middleware F)")
    case True
    let ?s2 = "s\<lparr>lastCalledMiddlewareIndex := int i, history := history s @ [Invoked i]\<rparr>"
    have "int i \<le> ?c (snd (run (argsNext F (mkArgs F i)) ((middleware F ! i) (mkArgs F i)) ?s2))"
    proof (rule run_invariant[where P = "\<lambda>w :: 'a exec. int i \<le> ?c w"])
      fix w :: "'a exec" assume w: "int i \<le> ?c w"
      show "int i \<le> ?c (snd (argsNext F (mkArgs F i) w))"
      proof (cases "initialArgs F ''next''")
        case None
        with w invokeMiddleware_counter_mono[of "w\<lparr>history := history w @ [Advanced i]\<rparr>" F "i + 1"]
        show ?thesis by (simp add: argsNext_capability[OF None])
      next
        case (Some v)
        with w show ?thesis
          by (cases v) (simp_all add: argsNext_supplied callVal_def split: prod.split)
      qed
    qed simp_all
    with False True show ?thesis by (simp add: invokeMiddleware_handler)
  next
    case n: False
    with False show ?thesis by (simp add: invokeMiddleware_last callLast_def split: prod.split)
  qed
qed


section \<open>The argument bundle\<close>

lemma quiet_callVal: "quiet w (snd (callVal v w))"
  by (cases v) (simp_all add: callVal_def quiet_refl quiet_user split: prod.split)

lemma run_quiet:
  assumes "\<And>w. quiet w (snd (nxt w))"
  shows "quiet w (snd (run nxt p w))"
proof (rule run_invariant[where P = "quiet w"])
  fix w' l assume "quiet w w'"
  then show "quiet w (w'\<lparr>history := history w' @ [Effect l]\<rparr>)"
    using quiet_Effect by (rule quiet_trans)
next
  fix w' u assume "quiet w w'"
  then show "quiet w (w'\<lparr>user := u\<rparr>)" using quiet_user by (rule quiet_trans)
next
  fix w' assume "quiet w w'"
  then show "quiet w (snd (nxt w'))" using assms by (rule quiet_trans)
next
  show "quiet w w" by (rule quiet_refl)
qed

lemma mkArgs_fixed:
  "mkArgs F i ''context'' = Some (Supplied (context' F))"
  "mkArgs F i ''client'' = Some (Supplied (client F))"
  "mkArgs F i ''logger'' = Some (Supplied (logger F))"
  by (simp_all add: mkArgs_def)

lemma mkArgs_other:
  "k \<notin> {''next'', ''context'', ''client'', ''logger''} \<Longrightarrow>
   mkArgs F i k = map_option Supplied (initialArgs F k)"
  by (cases "initialArgs F k") (simp_all add: mkArgs_def map_add_def)

section \<open>A second call of next\<close>

text \<open>
  C2, with the bound made strict. A call of the closure \<^verbatim>\<open>next\<close> built for the
  handler at index \<open>i\<close>, made when the counter is strictly above \<open>i\<close>, fails with
  \<open>MiddlewareNextError\<close>: the call of \<^verbatim>\<open>invokeMiddleware(i + 1)\<close> returns the error and
  the state exactly as it was (the test on the counter comes before every other effect of
  the step), so no handler and no terminal handler runs and the counter keeps its value.
  The error has the fixed code \<^verbatim>\<open>slack_bolt_middleware_next_error\<close>, which no failure
  thrown by a handler has. For the chain \<open>[A]\<close> where \<open>A\<close> awaits \<^verbatim>\<open>next\<close> twice, the
  terminal handler is called once, by the first call, and the second call fails with this
  error.
\<close>

theorem duplicate_advance_refused:
  fixes F :: "('e, 'u, 'd) frame" and s :: "'u exec"
  assumes "initialArgs F ''next'' = None" and "int i < lastCalledMiddlewareIndex s"
  shows "argsNext F (mkArgs F i) s
           = (Inl (MiddlewareNextError ''next() called multiple times''),
              s\<lparr>history := history s @ [Advanced i]\<rparr>)
       \<and> invokeMiddleware F (i + 1) s
           = (Inl (MiddlewareNextError ''next() called multiple times''), s)
       \<and> errorCode (MiddlewareNextError ''next() called multiple times'' :: 'e error)
           = Some ''slack_bolt_middleware_next_error''
       \<and> (\<forall>e :: 'e. errorCode (Thrown e) \<noteq> Some ''slack_bolt_middleware_next_error'')
       \<and> processMiddleware [advancingTwice ''c1'' ''c2''] Map.empty (Datum ()) (Datum ())
             (Datum ()) (Some spy) fresh
           = (Inl (MiddlewareNextError ''next() called multiple times'' :: unit error),
              \<lparr>history = [Invoked 0, Advanced 0, CalledLast, Effect ''c1'', Advanced 0],
               user = ()\<rparr>)
       \<and> count_list [Invoked 0, Advanced 0, CalledLast, Effect ''c1'', Advanced 0] CalledLast = 1"
proof -
  from assms(2) have d: "int (i + 1) \<le> lastCalledMiddlewareIndex s" by simp
  have a: "invokeMiddleware F (i + 1) s
      = (Inl (MiddlewareNextError ''next() called multiple times''), s)"
    using d by (rule invokeMiddleware_duplicate)
  have "int (i + 1) \<le> lastCalledMiddlewareIndex (s\<lparr>history := history s @ [Advanced i]\<rparr>)"
    using d by simp
  then have b: "argsNext F (mkArgs F i) s
      = (Inl (MiddlewareNextError ''next() called multiple times''),
         s\<lparr>history := history s @ [Advanced i]\<rparr>)"
    by (simp only: argsNext_capability[OF assms(1)] invokeMiddleware_duplicate)
  have c: "processMiddleware [advancingTwice ''c1'' ''c2''] Map.empty (Datum ()) (Datum ())
             (Datum ()) (Some spy) fresh
           = (Inl (MiddlewareNextError ''next() called multiple times'' :: unit error),
              \<lparr>history = [Invoked 0, Advanced 0, CalledLast, Effect ''c1'', Advanced 0],
               user = ()\<rparr>)"
    by (simp add: eval_simps)
  from a b c show ?thesis by simp
qed

theorem duplicate_advance_refused_witness:
  "(int 0 < 1)
   \<and> argsNext (frameOf [advancingTwice ''c1'' ''c2''] Map.empty)
        (mkArgs (frameOf [advancingTwice ''c1'' ''c2''] Map.empty :: (unit, unit, nat) frame) 0)
        \<lparr>history = [Invoked 0, Advanced 0, CalledLast, Effect ''c1''], user = (),
         lastCalledMiddlewareIndex = 1\<rparr>
       = (Inl (MiddlewareNextError ''next() called multiple times''),
          \<lparr>history = [Invoked 0, Advanced 0, CalledLast, Effect ''c1'', Advanced 0], user = (),
           lastCalledMiddlewareIndex = 1\<rparr>)"
  using duplicate_advance_refused[of "frameOf [advancingTwice ''c1'' ''c2''] Map.empty :: (unit, unit, nat) frame" 0
      "\<lparr>history = [Invoked 0, Advanced 0, CalledLast, Effect ''c1''], user = (),
         lastCalledMiddlewareIndex = 1\<rparr>"]
  by (simp add: frameOf_def)

text \<open>
  The bound is strict in the index the closure is bound to. The handler at index 0 makes
  its first call of \<^verbatim>\<open>next\<close> when the counter is 0, the index its closure is bound to;
  the call is not refused: it runs the terminal handler and succeeds.
\<close>

theorem advance_at_own_index_counterexample:
  "int 0 \<le> lastCalledMiddlewareIndex
       \<lparr>history = [Invoked 0, Effect ''A''], user = (), lastCalledMiddlewareIndex = 0\<rparr>
   \<and> argsNext (frameOf [advancing ''A''] Map.empty)
        (mkArgs (frameOf [advancing ''A''] Map.empty :: (unit, unit, nat) frame) 0)
        \<lparr>history = [Invoked 0, Effect ''A''], user = (), lastCalledMiddlewareIndex = 0\<rparr>
       = (Inr (),
          \<lparr>history = [Invoked 0, Effect ''A'', Advanced 0, CalledLast], user = (),
           lastCalledMiddlewareIndex = 1\<rparr>)
   \<and> processMiddleware [advancing ''A''] Map.empty (Datum ()) (Datum ()) (Datum ()) (Some spy) fresh
       = (Inr () :: unit completion,
          \<lparr>history = [Invoked 0, Effect ''A'', Advanced 0, CalledLast], user = ()\<rparr>)"
  by (simp add: argsNext_def frameOf_def eval_simps)

section \<open>What a handler is called with\<close>

text \<open>
  C6, for bundles whose property \<^verbatim>\<open>next\<close> is not taken by \<^verbatim>\<open>initialArgs\<close>. A step
  \<^verbatim>\<open>invokeMiddleware(i)\<close> within the chain that passes the test on the counter calls the
  handler at index \<open>i\<close> with the bundle \<open>mkArgs F i\<close>. Its entries \<^verbatim>\<open>context\<close>,
  \<^verbatim>\<open>client\<close> and \<^verbatim>\<open>logger\<close> are the values given to \<^verbatim>\<open>processMiddleware\<close>,
  whatever \<^verbatim>\<open>initialArgs\<close> holds; every other property but \<^verbatim>\<open>next\<close> is the one of
  \<^verbatim>\<open>initialArgs\<close>; and when \<^verbatim>\<open>initialArgs\<close> has no property \<^verbatim>\<open>next\<close>, the entry
  \<^verbatim>\<open>next\<close> is the closure bound to \<open>i\<close>, a call of which is a call of
  \<^verbatim>\<open>invokeMiddleware(i + 1)\<close>.
\<close>

theorem handler_argument_bundle:
  fixes F :: "('e, 'u, 'd) frame" and s :: "'u exec"
  assumes "lastCalledMiddlewareIndex s < int i" and "i < length (middleware F)"
  shows "invokeMiddleware F i s
           = run (argsNext F (mkArgs F i)) ((middleware F ! i) (mkArgs F i))
               (s\<lparr>lastCalledMiddlewareIndex := int i, history := history s @ [Invoked i]\<rparr>)
       \<and> mkArgs F i ''context'' = Some (Supplied (context' F))
       \<and> mkArgs F i ''client'' = Some (Supplied (client F))
       \<and> mkArgs F i ''logger'' = Some (Supplied (logger F))
       \<and> (\<forall>k. k \<notin> {''next'', ''context'', ''client'', ''logger''} \<longrightarrow>
              mkArgs F i k = map_option Supplied (initialArgs F k))
       \<and> (initialArgs F ''next'' = None \<longrightarrow>
              mkArgs F i ''next'' = Some (Capability i)
              \<and> (\<forall>s' :: 'u exec. argsNext F (mkArgs F i) s'
                    = invokeMiddleware F (i + 1) (s'\<lparr>history := history s' @ [Advanced i]\<rparr>)))"
  using assms
  by (simp add: invokeMiddleware_handler mkArgs_fixed mkArgs_other mkArgs_next
      argsNext_capability)

theorem handler_argument_bundle_witness:
  "lastCalledMiddlewareIndex \<lparr>history = [], user = (), lastCalledMiddlewareIndex = - 1\<rparr> < int 0
   \<and> 0 < length (middleware (frameOf [halting ''A''] [''payload'' \<mapsto> Datum 7, ''client'' \<mapsto> Datum 8]
                :: (unit, unit, nat) frame))
   \<and> mkArgs (frameOf [halting ''A''] [''payload'' \<mapsto> Datum 7, ''client'' \<mapsto> Datum 8]
                :: (unit, unit, nat) frame) 0 ''client'' = Some (Supplied (Datum 2))
   \<and> mkArgs (frameOf [halting ''A''] [''payload'' \<mapsto> Datum 7, ''client'' \<mapsto> Datum 8]
                :: (unit, unit, nat) frame) 0 ''payload'' = Some (Supplied (Datum 7))
   \<and> mkArgs (frameOf [halting ''A''] [''payload'' \<mapsto> Datum 7, ''client'' \<mapsto> Datum 8]
                :: (unit, unit, nat) frame) 0 ''next'' = Some (Capability 0)
   \<and> invokeMiddleware (frameOf [halting ''A''] [''payload'' \<mapsto> Datum 7, ''client'' \<mapsto> Datum 8]
                :: (unit, unit, nat) frame) 0
         \<lparr>history = [], user = (), lastCalledMiddlewareIndex = - 1\<rparr>
       = (Inr (), \<lparr>history = [Invoked 0, Effect ''A''], user = (), lastCalledMiddlewareIndex = 0\<rparr>)"
  using handler_argument_bundle[of
      "\<lparr>history = [], user = (), lastCalledMiddlewareIndex = - 1\<rparr>" 0
      "frameOf [halting ''A''] [''payload'' \<mapsto> Datum 7, ''client'' \<mapsto> Datum 8]
         :: (unit, unit, nat) frame"]
  by (simp add: frameOf_def halting_def finish_def)

text \<open>
  With a property \<^verbatim>\<open>next\<close> in \<^verbatim>\<open>initialArgs\<close>, the handler at index 0 is called with a
  bundle whose \<^verbatim>\<open>next\<close> is the supplied value: the handler calls it, the call succeeds,
  and the handler at index 1 is never called.
\<close>

theorem supplied_next_in_bundle_counterexample:
  "mkArgs (frameOf [advancing ''A'', advancing ''B''] [''next'' \<mapsto> Callable spy]
             :: (unit, unit, nat) frame) 0 ''next''
     = Some (Supplied (Callable spy))
   \<and> processMiddleware [advancing ''A'', advancing ''B''] [''next'' \<mapsto> Callable spy]
        (Datum (1 :: nat)) (Datum 2) (Datum 3) (Some spy) fresh
     = (Inr () :: unit completion, \<lparr>history = [Invoked 0, Effect ''A''], user = ()\<rparr>)"
  by (simp add: frameOf_def eval_simps)

section \<open>A property next in initialArgs\<close>




section \<open>A handler that never advances\<close>

lemma execute_nonempty:
  fixes F :: "('e, 'u, 'd) frame"
  assumes "middleware F \<noteq> []"
  shows "execute F w =
     (case invokeMiddleware F 0 \<lparr>history = history w, user = user w, lastCalledMiddlewareIndex = - 1\<rparr>
      of (r, s) \<Rightarrow> (r, \<lparr>history = history s, user = user s\<rparr>))"
proof -
  have eq: "\<lparr>middleware = middleware F, initialArgs = initialArgs F, context' = context' F,
         client = client F, logger = logger F, last = last F\<rparr> = F"
    by simp
  from assms show ?thesis by (simp add: execute_def processMiddleware_def eq)
qed





section \<open>Each handler is started by the call of next of the one before\<close>

lemma announced_Nil: "announced n []"
  by (simp add: announced_def)

lemma announced_snoc:
  "announced n (h @ [e]) \<longleftrightarrow>
     announced n h
     \<and> (\<forall>j. e = Invoked (Suc j) \<longrightarrow> h \<noteq> [] \<and> List.last h = Advanced j)
     \<and> (e = CalledLast \<longrightarrow> 0 < n \<longrightarrow> h \<noteq> [] \<and> List.last h = Advanced (n - 1))"
proof -
  have old: "(h @ [e]) ! k = h ! k \<and> (h @ [e]) ! (k - 1) = h ! (k - 1)" if "k < length h" for k
    using that by (simp add: nth_append less_imp_diff_less)
  have new: "(h @ [e]) ! length h = e" by simp
  have prev: "(h @ [e]) ! (length h - 1) = List.last h" if "h \<noteq> []"
    using that by (simp add: nth_append last_conv_nth)
  show ?thesis
  proof
    assume a: "announced n (h @ [e])"
    have "announced n h"
      unfolding announced_def
    proof (intro allI impI)
      fix k assume k: "k < length h"
      then have "k < length (h @ [e])" by simp
      with a old[OF k] show "(\<forall>j. h ! k = Invoked (Suc j) \<longrightarrow> 0 < k \<and> h ! (k - 1) = Advanced j)
        \<and> (h ! k = CalledLast \<longrightarrow> 0 < n \<longrightarrow> 0 < k \<and> h ! (k - 1) = Advanced (n - 1))"
        unfolding announced_def by metis
    qed
    moreover have "h \<noteq> [] \<and> List.last h = Advanced j" if "e = Invoked (Suc j)" for j
    proof -
      from a that new have "0 < length h \<and> (h @ [e]) ! (length h - 1) = Advanced j"
        unfolding announced_def by (metis length_append_singleton lessI)
      then show ?thesis using prev by auto
    qed
    moreover have "h \<noteq> [] \<and> List.last h = Advanced (n - 1)" if "e = CalledLast" "0 < n"
    proof -
      from a that new have "0 < length h \<and> (h @ [e]) ! (length h - 1) = Advanced (n - 1)"
        unfolding announced_def by (metis length_append_singleton lessI)
      then show ?thesis using prev by auto
    qed
    ultimately show "announced n h
     \<and> (\<forall>j. e = Invoked (Suc j) \<longrightarrow> h \<noteq> [] \<and> List.last h = Advanced j)
     \<and> (e = CalledLast \<longrightarrow> 0 < n \<longrightarrow> h \<noteq> [] \<and> List.last h = Advanced (n - 1))"
      by blast
  next
    assume b: "announced n h
     \<and> (\<forall>j. e = Invoked (Suc j) \<longrightarrow> h \<noteq> [] \<and> List.last h = Advanced j)
     \<and> (e = CalledLast \<longrightarrow> 0 < n \<longrightarrow> h \<noteq> [] \<and> List.last h = Advanced (n - 1))"
    show "announced n (h @ [e])"
      unfolding announced_def
    proof (intro allI impI)
      fix k assume "k < length (h @ [e])"
      then consider "k < length h" | "k = length h" by fastforce
      then show "(\<forall>j. (h @ [e]) ! k = Invoked (Suc j) \<longrightarrow>
                    0 < k \<and> (h @ [e]) ! (k - 1) = Advanced j)
        \<and> ((h @ [e]) ! k = CalledLast \<longrightarrow> 0 < n \<longrightarrow>
              0 < k \<and> (h @ [e]) ! (k - 1) = Advanced (n - 1))"
      proof cases
        case 1
        with b old[OF 1] show ?thesis unfolding announced_def by metis
      next
        case 2
        with b new prev show ?thesis by (metis length_greater_0_conv)
      qed
    qed
  qed
qed

lemma run_announced:
  fixes w :: "'u exec"
  assumes nx: "\<And>w :: 'u exec. (\<exists>h. history w = h0 @ h \<and> announced n h) \<Longrightarrow>
                 (\<exists>h. history (snd (nxt w)) = h0 @ h \<and> announced n h)"
    and w: "\<exists>h. history w = h0 @ h \<and> announced n h"
  shows "\<exists>h. history (snd (run nxt p w)) = h0 @ h \<and> announced n h"
proof (rule run_invariant[where P = "\<lambda>w :: 'u exec. \<exists>h. history w = h0 @ h \<and> announced n h"])
  fix w :: "'u exec" and l
  assume "\<exists>h. history w = h0 @ h \<and> announced n h"
  then obtain h where h: "history w = h0 @ h" "announced n h" by blast
  then have "history (w\<lparr>history := history w @ [Effect l]\<rparr>) = h0 @ (h @ [Effect l])
      \<and> announced n (h @ [Effect l])"
    by (simp add: announced_snoc)
  then show "\<exists>h. history (w\<lparr>history := history w @ [Effect l]\<rparr>) = h0 @ h \<and> announced n h"
    by blast
next
  fix w :: "'u exec" and u
  assume "\<exists>h. history w = h0 @ h \<and> announced n h"
  then show "\<exists>h. history (w\<lparr>user := u\<rparr>) = h0 @ h \<and> announced n h" by simp
next
  fix w :: "'u exec"
  assume "\<exists>h. history w = h0 @ h \<and> announced n h"
  then show "\<exists>h. history (snd (nxt w)) = h0 @ h \<and> announced n h" by (rule nx)
next
  show "\<exists>h. history w = h0 @ h \<and> announced n h" by (rule w)
qed

lemma invokeMiddleware_announced:
  fixes F :: "('e, 'u, 'd) frame" and s :: "'u exec"
  shows "i \<le> length (middleware F) \<Longrightarrow> history s = h0 @ h \<Longrightarrow>
    announced (length (middleware F)) h \<Longrightarrow>
    (0 < i \<longrightarrow> h \<noteq> [] \<and> List.last h = Advanced (i - 1)) \<Longrightarrow>
    \<exists>h'. history (snd (invokeMiddleware F i s)) = h0 @ h' \<and> announced (length (middleware F)) h'"
proof (induction "length (middleware F) - i" arbitrary: i s h)
  case 0
  let ?n = "length (middleware F)"
  from 0 have i: "i = ?n" by simp
  show ?case
  proof (cases "int i \<le> lastCalledMiddlewareIndex s")
    case True
    with 0 show ?thesis by (auto simp: invokeMiddleware_duplicate)
  next
    case False
    have "announced ?n (h @ [CalledLast])"
      using 0(4,5) i by (simp add: announced_snoc)
    moreover have "history (snd (invokeMiddleware F i s)) = h0 @ (h @ [CalledLast])"
      using False i 0(3) by (simp add: invokeMiddleware_last callLast_def split_beta)
    ultimately show ?thesis by blast
  qed
next
  case (Suc k)
  let ?n = "length (middleware F)"
  from Suc.hyps(2) have i: "i < ?n" by simp
  show ?case
  proof (cases "int i \<le> lastCalledMiddlewareIndex s")
    case True
    with Suc.prems show ?thesis by (auto simp: invokeMiddleware_duplicate)
  next
    case False
    let ?s2 = "s\<lparr>lastCalledMiddlewareIndex := int i, history := history s @ [Invoked i]\<rparr>"
    have a: "announced ?n (h @ [Invoked i])"
      using Suc.prems(3,4) by (auto simp: announced_snoc)
    have "\<exists>h'. history (snd (run (argsNext F (mkArgs F i)) ((middleware F ! i) (mkArgs F i)) ?s2))
        = h0 @ h' \<and> announced ?n h'"
    proof (rule run_announced)
      show "\<exists>h'. history ?s2 = h0 @ h' \<and> announced ?n h'"
        using a Suc.prems(2) by auto
    next
      fix w :: "'u exec"
      assume "\<exists>hw. history w = h0 @ hw \<and> announced ?n hw"
      then obtain hw where hw: "history w = h0 @ hw" "announced ?n hw" by blast
      show "\<exists>h'. history (snd (argsNext F (mkArgs F i) w)) = h0 @ h' \<and> announced ?n h'"
      proof (cases "initialArgs F ''next''")
        case None
        let ?w = "w\<lparr>history := history w @ [Advanced i]\<rparr>"
        have "\<exists>h'. history (snd (invokeMiddleware F (i + 1) ?w)) = h0 @ h' \<and> announced ?n h'"
        proof (rule Suc.hyps(1)[of "i + 1" ?w "hw @ [Advanced i]"])
          show "k = ?n - (i + 1)" using Suc.hyps(2) by simp
          show "i + 1 \<le> ?n" using i by simp
          show "history ?w = h0 @ hw @ [Advanced i]" using hw(1) by simp
          show "announced ?n (hw @ [Advanced i])" using hw(2) by (simp add: announced_snoc)
          show "0 < i + 1 \<longrightarrow> hw @ [Advanced i] \<noteq> []
              \<and> List.last (hw @ [Advanced i]) = Advanced (i + 1 - 1)"
            by simp
        qed
        then show ?thesis by (simp add: argsNext_capability[OF None])
      next
        case (Some v)
        have "history (snd (callVal v w)) = history w"
          by (cases v) (simp_all add: callVal_def split_beta)
        with hw Some show ?thesis by (auto simp: argsNext_supplied)
      qed
    qed
    with False i show ?thesis by (simp add: invokeMiddleware_handler)
  qed
qed

lemma after_advance_no_call:
  fixes F :: "('e, 'u, 'd) frame" and s :: "'u exec"
  shows "calls (history (snd (run (argsNext F (mkArgs F i)) q (snd (argsNext F (mkArgs F i) s)))))
       = calls (history (snd (argsNext F (mkArgs F i) s)))"
proof (cases "initialArgs F ''next''")
  case None
  let ?c = lastCalledMiddlewareIndex
  let ?nxt = "argsNext F (mkArgs F i)"
  let ?s' = "snd (?nxt s)"
  have c: "int (i + 1) \<le> ?c ?s'"
    using invokeMiddleware_counter_reached[of "i + 1" F "s\<lparr>history := history s @ [Advanced i]\<rparr>"]
    by (simp add: argsNext_capability[OF None])
  have "int (i + 1) \<le> ?c (snd (run ?nxt q ?s'))
      \<and> calls (history (snd (run ?nxt q ?s'))) = calls (history ?s')"
  proof (rule run_invariant[where P = "\<lambda>w :: 'u exec. int (i + 1) \<le> ?c w
         \<and> calls (history w) = calls (history ?s')"])
    fix w :: "'u exec" and l
    assume "int (i + 1) \<le> ?c w \<and> calls (history w) = calls (history ?s')"
    then show "int (i + 1) \<le> ?c (w\<lparr>history := history w @ [Effect l]\<rparr>)
        \<and> calls (history (w\<lparr>history := history w @ [Effect l]\<rparr>)) = calls (history ?s')"
      by (simp add: calls_def)
  next
    fix w :: "'u exec" and u
    assume "int (i + 1) \<le> ?c w \<and> calls (history w) = calls (history ?s')"
    then show "int (i + 1) \<le> ?c (w\<lparr>user := u\<rparr>)
        \<and> calls (history (w\<lparr>user := u\<rparr>)) = calls (history ?s')"
      by simp
  next
    fix w :: "'u exec"
    assume w: "int (i + 1) \<le> ?c w \<and> calls (history w) = calls (history ?s')"
    then have "int (i + 1) \<le> ?c (w\<lparr>history := history w @ [Advanced i]\<rparr>)" by simp
    then have "?nxt w = (Inl (MiddlewareNextError ''next() called multiple times''),
        w\<lparr>history := history w @ [Advanced i]\<rparr>)"
      by (simp only: argsNext_capability[OF None] invokeMiddleware_duplicate)
    with w show "int (i + 1) \<le> ?c (snd (?nxt w))
        \<and> calls (history (snd (?nxt w))) = calls (history ?s')"
      by (simp add: calls_def)
  next
    show "int (i + 1) \<le> ?c ?s' \<and> calls (history ?s') = calls (history ?s')"
      using c by simp
  qed
  then show ?thesis by simp
next
  case (Some v)
  have "argsNext F (mkArgs F i) = callVal v"
    by (rule ext) (simp add: argsNext_supplied[OF Some])
  then show ?thesis by (simp add: quiet_calls run_quiet quiet_callVal)
qed

section \<open>A handler body around its first call of next\<close>











section \<open>Short-circuit\<close>




section \<open>Failures\<close>




section \<open>The executor and the chain of the spec\<close>











section \<open>One step of the machine\<close>

lemma seen_append: "seen (xs @ ys) = seen xs @ seen ys"
  by (induction xs rule: seen.induct) simp_all

lemma resumes_append: "resumes (xs @ ys) = resumes xs @ resumes ys"
  by (induction xs rule: resumes.induct) simp_all

lemma picks_count:
  "(y, ys) \<in> set (picks xs) \<Longrightarrow>
   count_list (concat (map f xs)) j = count_list (f y) j + count_list (concat (map f ys)) j"
  by (induction xs arbitrary: ys) auto

lemma picks_set: "(y, ys) \<in> set (picks xs) \<Longrightarrow> set xs = insert y (set ys)"
  by (induction xs arbitrary: ys) auto

lemma picks_Resume_count:
  "(Resume t, js) \<in> set (picks xs) \<Longrightarrow>
   count_list (concat (map f (resumes xs))) j
     = count_list (f t) j + count_list (concat (map f (resumes js))) j"
proof (induction xs arbitrary: js)
  case Nil
  then show ?case by simp
next
  case (Cons x xs)
  then show ?case by (cases x) auto
qed

lemma picks_Resume_set:
  "(Resume t, js) \<in> set (picks xs) \<Longrightarrow> set (resumes xs) = insert t (set (resumes js))"
proof (induction xs arbitrary: js)
  case Nil
  then show ?case by simp
next
  case (Cons x xs)
  then show ?case by (cases x) auto
qed

lemma picks_Settle: "(Settle r, js) \<in> set (picks xs) \<Longrightarrow> resumes js = resumes xs"
proof (induction xs arbitrary: js)
  case Nil
  then show ?case by simp
next
  case (Cons x xs)
  then show ?case by (cases x) auto
qed

lemma steps_running: "ready m = t # rs \<Longrightarrow> steps mw lst m = [perform mw lst t rs m]"
  by (simp add: steps_def)

lemma steps_idle:
  assumes "ready m = []" and "m' \<in> set (steps mw lst m)"
  obtains (wake) t js where "(Resume t, js) \<in> set (picks (micro m))"
      and "m' = m\<lparr>ready := [t], micro := js\<rparr>"
    | (settle) r js where "(Settle r, js) \<in> set (picks (micro m))"
      and "m' = m\<lparr>observed := observed m @ [AllSettled r], micro := js\<rparr>"
    | (fire) t ts where "micro m = []" and "(t, ts) \<in> set (picks (timers m))"
      and "m' = m\<lparr>ready := [t], timers := ts\<rparr>"
proof (cases "micro m = []")
  case True
  with assms obtain t ts where "(t, ts) \<in> set (picks (timers m))"
    and "m' = m\<lparr>ready := [t], timers := ts\<rparr>"
    by (auto simp: steps_def)
  with True show thesis by (rule fire)
next
  case False
  with assms obtain j js where p: "(j, js) \<in> set (picks (micro m))"
    and m': "m' = (case j of Resume t \<Rightarrow> m\<lparr>ready := [t], micro := js\<rparr>
                   | Settle r \<Rightarrow> m\<lparr>observed := observed m @ [AllSettled r], micro := js\<rparr>)"
    by (auto simp: steps_def)
  show thesis
  proof (cases j)
    case (Resume t)
    with p m' show thesis by (intro wake[of t js]) simp_all
  next
    case (Settle r)
    with p m' show thesis by (intro settle[of r js]) simp_all
  qed
qed

lemma steps_idle_same:
  assumes "ready m = []" and "m' \<in> set (steps mw lst m)"
  shows "counter m' = counter m" and "seen (observed m') = seen (observed m)"
    and "set (threads m') = set (threads m)"
    and "count_list (pending m') j = count_list (pending m) j"
proof -
  from assms show "counter m' = counter m"
    by (cases rule: steps_idle) auto
  from assms show "seen (observed m') = seen (observed m)"
    by (cases rule: steps_idle) (auto simp: seen_append)
  from assms show "set (threads m') = set (threads m)"
  proof (cases rule: steps_idle)
    case (wake t js)
    with assms(1) picks_Resume_set[OF wake(1)] show ?thesis by (simp add: threads_def)
  next
    case (settle r js)
    with assms(1) picks_Settle[OF settle(1)] show ?thesis by (simp add: threads_def)
  next
    case (fire t ts)
    with assms(1) picks_set[OF fire(2)] show ?thesis by (simp add: threads_def)
  qed
  from assms show "count_list (pending m') j = count_list (pending m) j"
  proof (cases rule: steps_idle)
    case (wake t js)
    with assms(1) picks_Resume_count[OF wake(1), of indices j] show ?thesis
      by (simp add: threads_def pending_def)
  next
    case (settle r js)
    with assms(1) picks_Settle[OF settle(1)] show ?thesis by (simp add: threads_def pending_def)
  next
    case (fire t ts)
    with assms(1) picks_count[OF fire(2), of indices j] show ?thesis
      by (simp add: threads_def pending_def)
  qed
qed

lemma runs_invariant:
  assumes step: "\<And>m m'. P m \<Longrightarrow> m' \<in> set (steps mw lst m) \<Longrightarrow> P m'"
  shows "P m \<Longrightarrow> m' \<in> set (runs k mw lst m) \<Longrightarrow> P m'"
proof (induction k arbitrary: m)
  case 0
  then show ?case by simp
next
  case (Suc k)
  show ?case
  proof (cases "steps mw lst m = []")
    case True
    with Suc.prems show ?thesis by simp
  next
    case False
    with Suc.prems(2) obtain m1 where m1: "m1 \<in> set (steps mw lst m)"
      and in': "m' \<in> set (runs k mw lst m1)"
      by auto
    from step[OF Suc.prems(1) m1] in' show ?thesis by (rule Suc.IH)
  qed
qed
lemma advance_cases:
  obtains (last) "length mw \<le> at t"
      and "advance mw lst t m = Inl (TypeError ''args.next is not a function'')"
    | (refused) "at t < length mw" and "int (at t + 1) \<le> counter m"
      and "advance mw lst t m = Inl (MiddlewareNextError ''next() called multiple times'')"
    | (called) "at t < length mw" and "counter m < int (at t + 1)"
      and "advance mw lst t m
             = Inr (if length mw \<le> at t + 1 then lst else mw ! (at t + 1),
                    m\<lparr>counter := int (at t + 1),
                      observed := observed m @ [Seen (Advanced (at t)),
                        Seen (if length mw \<le> at t + 1 then CalledLast else Invoked (at t + 1))]\<rparr>)"
proof -
  consider "length mw \<le> at t" | "at t < length mw" "int (at t + 1) \<le> counter m"
    | "at t < length mw" "counter m < int (at t + 1)"
    by linarith
  then show thesis
  proof cases
    case 1
    then show thesis by (intro last) (simp_all add: advance_def)
  next
    case 2
    then show thesis by (intro refused) (simp_all add: advance_def enter_def)
  next
    case 3
    then show thesis by (intro called) (simp_all add: advance_def enter_def)
  qed
qed

lemma perform_cases:
  assumes "ready m = t # rs" and "m' = perform mw lst t rs m"
  obtains
    (return_end) r os where "now t = Return r" and "callers t = []"
      and "counter m' = counter m" and "observed m' = observed m @ os" and "seen os = []"
      and "threads m' = rs @ resumes (micro m) @ timers m"
  | (return_to) r i k cs os where "now t = Return r" and "callers t = (i, k) # cs"
      and "counter m' = counter m" and "observed m' = observed m @ os" and "seen os = []"
      and "threads m'
             = rs @ resumes (micro m) @ [t\<lparr>now := k r, at := i, callers := cs\<rparr>] @ timers m"
  | (log) l p where "now t = Log l p"
      and "counter m' = counter m" and "observed m' = observed m @ [Seen (Effect l)]"
      and "threads m' = t\<lparr>now := p\<rparr> # rs @ resumes (micro m) @ timers m"
  | (timer) p where "now t = AwaitTimer p"
      and "counter m' = counter m" and "observed m' = observed m"
      and "threads m' = rs @ resumes (micro m) @ timers m @ [t\<lparr>now := p\<rparr>]"
  | (await_last) k e where "now t = AwaitNext k" and "length mw \<le> at t"
      and "counter m' = counter m" and "observed m' = observed m"
      and "threads m' = rs @ resumes (micro m) @ [t\<lparr>now := k (Inl e)\<rparr>] @ timers m"
  | (await_refused) k e where "now t = AwaitNext k" and "at t < length mw"
      and "int (at t + 1) \<le> counter m"
      and "counter m' = counter m" and "observed m' = observed m @ [Seen (Advanced (at t))]"
      and "threads m' = rs @ resumes (micro m) @ [t\<lparr>now := k (Inl e)\<rparr>] @ timers m"
  | (await_called) k where "now t = AwaitNext k" and "at t < length mw"
      and "counter m < int (at t + 1)" and "counter m' = int (at t + 1)"
      and "observed m' = observed m @ [Seen (Advanced (at t)),
             Seen (if length mw \<le> at t + 1 then CalledLast else Invoked (at t + 1))]"
      and "threads m'
             = t\<lparr>now := (if length mw \<le> at t + 1 then lst else mw ! (at t + 1)),
                  at := at t + 1, callers := (at t, k) # callers t\<rparr>
               # rs @ resumes (micro m) @ timers m"
  | (drop_last) p e where "now t = DropNext p" and "length mw \<le> at t"
      and "counter m' = counter m" and "observed m' = observed m"
      and "threads m' = t\<lparr>now := Return (Inl e)\<rparr> # rs @ resumes (micro m) @ timers m"
  | (drop_refused) p where "now t = DropNext p" and "at t < length mw"
      and "int (at t + 1) \<le> counter m"
      and "counter m' = counter m" and "observed m' = observed m @ [Seen (Advanced (at t))]"
      and "threads m' = t\<lparr>now := p\<rparr> # rs @ resumes (micro m) @ timers m"
  | (drop_called) p where "now t = DropNext p" and "at t < length mw"
      and "counter m < int (at t + 1)" and "counter m' = int (at t + 1)"
      and "observed m' = observed m @ [Seen (Advanced (at t)),
             Seen (if length mw \<le> at t + 1 then CalledLast else Invoked (at t + 1))]"
      and "threads m'
             = \<lparr>now = (if length mw \<le> at t + 1 then lst else mw ! (at t + 1)),
                at = at t + 1, callers = [], main = False\<rparr>
               # t\<lparr>now := p\<rparr> # rs @ resumes (micro m) @ timers m"
proof (cases "now t")
  case (Return r)
  let ?os = "if length mw \<le> at t then [LastSettled r] else []"
  show thesis
  proof (cases "callers t")
    case Nil
    show thesis
      by (rule return_end[of r ?os])
        (use Return Nil assms(2) in \<open>simp_all add: perform_def threads_def resumes_append Let_def\<close>)
  next
    case (Cons a cs)
    obtain i k where a: "a = (i, k)" by (cases a)
    show thesis
      by (rule return_to[of r i k cs ?os])
        (use Return Cons a assms(2) in \<open>simp_all add: perform_def threads_def resumes_append Let_def\<close>)
  qed
next
  case (Log l p)
  show thesis
    by (rule log[of l p]) (use Log assms(2) in \<open>simp_all add: perform_def threads_def\<close>)
next
  case (AwaitTimer p)
  show thesis
    by (rule timer[of p]) (use AwaitTimer assms(2) in \<open>simp_all add: perform_def threads_def\<close>)
next
  case (AwaitNext k)
  show thesis
  proof (cases rule: advance_cases[where mw = mw and t = t and m = m and lst = lst])
    case last
    show thesis
      by (rule await_last[of k "TypeError ''args.next is not a function''"])
        (use AwaitNext last assms(2) in \<open>simp_all add: perform_def threads_def resumes_append\<close>)
  next
    case refused
    show thesis
      by (rule await_refused[of k "MiddlewareNextError ''next() called multiple times''"])
        (use AwaitNext refused assms(2) in \<open>simp_all add: perform_def threads_def resumes_append\<close>)
  next
    case called
    show thesis
      by (rule await_called[of k])
        (use AwaitNext called assms(2) in \<open>simp_all add: perform_def threads_def\<close>)
  qed
next
  case (DropNext p)
  show thesis
  proof (cases rule: advance_cases[where mw = mw and t = t and m = m and lst = lst])
    case last
    show thesis
      by (rule drop_last[of p "TypeError ''args.next is not a function''"])
        (use DropNext last assms(2) in \<open>simp_all add: perform_def threads_def\<close>)
  next
    case refused
    show thesis
      by (rule drop_refused[of p])
        (use DropNext refused assms(2) in \<open>simp_all add: perform_def threads_def\<close>)
  next
    case called
    show thesis
      by (rule drop_called[of p])
        (use DropNext called assms(2) in \<open>simp_all add: perform_def threads_def\<close>)
  qed
qed
section \<open>The steps of the machine\<close>

lemma steps_cases:
  assumes "m' \<in> set (steps mw lst m)"
  obtains (idle) "ready m = []"
    | (running) t rs where "ready m = t # rs" and "m' = perform mw lst t rs m"
  using assms by (cases "ready m") (auto simp: steps_running)

lemma ordered_same:
  "ordered n m \<Longrightarrow> counter m' = counter m \<Longrightarrow>
   stepsOf n (seen (observed m')) = stepsOf n (seen (observed m)) \<Longrightarrow> ordered n m'"
  by (simp add: ordered_def)

lemma ordered_called:
  assumes o: "ordered n m" and a: "a < n" and lt: "counter m < int (a + 1)"
    and c: "counter m' = int (a + 1)"
    and ob: "observed m' = observed m @ [Seen (Advanced a),
               Seen (if n \<le> a + 1 then CalledLast else Invoked (a + 1))]"
  shows "ordered n m'"
proof -
  from ob a have s: "stepsOf n (seen (observed m')) = stepsOf n (seen (observed m)) @ [a + 1]"
    by (auto simp: seen_append stepsOf_append)
  from o lt have "\<forall>j \<in> set (stepsOf n (seen (observed m))). j < a + 1"
    unfolding ordered_def by fastforce
  with o c s a show ?thesis
    unfolding ordered_def by (auto simp: sorted_wrt_append)
qed

lemma ordered_steps:
  assumes o: "ordered (length mw) m" and s: "m' \<in> set (steps mw lst m)"
  shows "ordered (length mw) m'"
  using s
proof (cases rule: steps_cases)
  case idle
  from steps_idle_same(1,2)[OF idle s] show ?thesis
    by (intro ordered_same[OF o]) simp_all
next
  case (running t rs)
  then show ?thesis
  proof (cases rule: perform_cases)
    case (await_called k)
    from o await_called(2,3,4,5) show ?thesis by (rule ordered_called)
  next
    case (drop_called p)
    from o drop_called(2,3,4,5) show ?thesis by (rule ordered_called)
  qed (auto intro!: ordered_same[OF o] simp: seen_append stepsOf_append)
qed

lemma ordered_start: "mw \<noteq> [] \<Longrightarrow> ordered (length mw) (start mw lst)"
  by (simp add: start_def enter_def ordered_def)

lemma steps_at_most_once:
  assumes "sorted_wrt (<) (stepsOf n h)" and "\<forall>j \<in> set (stepsOf n h). j \<le> n"
  shows "length (stepsOf n h) \<le> n + 1 \<and> (\<forall>i. count_list h (Invoked i) \<le> 1)
       \<and> count_list h CalledLast \<le> 1"
proof -
  have d: "distinct (stepsOf n h)" using assms(1) by (simp add: strict_sorted_iff)
  have sub: "set (stepsOf n h) \<subseteq> {0..n}" using assms(2) by auto
  have "length (stepsOf n h) = card (set (stepsOf n h))" using d by (simp add: distinct_card)
  also have "\<dots> \<le> card {0..n}" using sub by (intro card_mono) simp_all
  finally have len: "length (stepsOf n h) \<le> n + 1" by simp
  have inv: "count_list h (Invoked i) \<le> 1" for i
    using count_Invoked_stepsOf[of h i n] count_list_distinct[OF d, of i] by linarith
  have lst: "count_list h CalledLast \<le> 1"
    using count_CalledLast_stepsOf[of h n] count_list_distinct[OF d, of n] by linarith
  from len inv lst show ?thesis by blast
qed

lemma machine_steps_once:
  assumes "cw \<noteq> []" and "m \<in> set (runs k cw lst (start cw lst))"
  shows "sorted_wrt (<) (stepsOf (length cw) (seen (observed m)))
       \<and> set (stepsOf (length cw) (seen (observed m))) \<subseteq> {0..length cw}
       \<and> length (stepsOf (length cw) (seen (observed m))) \<le> length cw + 1
       \<and> (\<forall>i. count_list (seen (observed m)) (Invoked i) \<le> 1)
       \<and> count_list (seen (observed m)) CalledLast \<le> 1"
proof -
  let ?h = "seen (observed m)"
  have o: "ordered (length cw) m"
    using ordered_start[OF assms(1)] assms(2)
    by (rule runs_invariant[where P = "ordered (length cw)", rotated]) (rule ordered_steps)
  then have a: "sorted_wrt (<) (stepsOf (length cw) ?h)" by (simp add: ordered_def)
  from o have b: "\<forall>j \<in> set (stepsOf (length cw) ?h). j \<le> length cw"
    unfolding ordered_def by fastforce
  then have c: "set (stepsOf (length cw) ?h) \<subseteq> {0..length cw}" by auto
  from steps_at_most_once[OF a b] a c show ?thesis by blast
qed
section \<open>The functions that have not completed\<close>

lemma count_list_pos: "0 < count_list xs x \<longleftrightarrow> x \<in> set xs"
  using count_list_0_iff[of xs x] by auto

lemma accounted_same:
  assumes "accounted m" and "counter m' = counter m"
    and "\<And>j. count_list (pending m') j \<le> count_list (pending m) j"
  shows "accounted m'"
proof -
  have "int j \<le> counter m'" if "j \<in> set (pending m')" for j
  proof -
    from that have "0 < count_list (pending m') j" by (simp only: count_list_pos)
    with assms(3)[of j] have "0 < count_list (pending m) j" by linarith
    then have "j \<in> set (pending m)" by (simp only: count_list_pos)
    with assms(1,2) show ?thesis by (simp add: accounted_def)
  qed
  moreover have "count_list (pending m') j \<le> 1" for j
    using assms(1) assms(3)[of j] unfolding accounted_def by (meson le_trans)
  ultimately show ?thesis by (simp add: accounted_def)
qed

lemma accounted_called:
  assumes a: "accounted m" and lt: "counter m < int (Suc i)" and c: "counter m' = int (Suc i)"
    and p: "\<And>j. count_list (pending m') j = (if j = Suc i then 1 else 0) + count_list (pending m) j"
  shows "accounted m'"
proof -
  have new: "Suc i \<notin> set (pending m)"
    using a lt unfolding accounted_def by fastforce
  then have new0: "count_list (pending m) (Suc i) = 0" by (rule count_notin)
  have "int j \<le> counter m'" if "j \<in> set (pending m')" for j
  proof (cases "j = Suc i")
    case True
    with c show ?thesis by simp
  next
    case False
    from that have "0 < count_list (pending m') j" by (simp only: count_list_pos)
    with p[of j] False have "0 < count_list (pending m) j" by simp
    then have "j \<in> set (pending m)" by (simp only: count_list_pos)
    with a lt c show ?thesis unfolding accounted_def by fastforce
  qed
  moreover have "count_list (pending m') j \<le> 1" for j
    using a p[of j] new0
    unfolding accounted_def by (cases "j = Suc i") simp_all
  ultimately show ?thesis by (simp add: accounted_def)
qed

lemma threads_running:
  "ready m = t # rs \<Longrightarrow> threads m = t # rs @ resumes (micro m) @ timers m"
  by (simp add: threads_def)

lemma accounted_steps:
  assumes a: "accounted m" and s: "m' \<in> set (steps mw lst m)"
  shows "accounted m'"
  using s
proof (cases rule: steps_cases)
  case idle
  from steps_idle_same(1,4)[OF idle s] show ?thesis
    by (intro accounted_same[OF a]) simp_all
next
  case (running t rs)
  note tm = threads_running[OF running(1)]
  from running show ?thesis
  proof (cases rule: perform_cases)
    case (await_called k)
    show ?thesis
      by (rule accounted_called[OF a, of "at t"])
        (use await_called tm in \<open>simp_all add: pending_def indices_def\<close>)
  next
    case (drop_called p)
    show ?thesis
      by (rule accounted_called[OF a, of "at t"])
        (use drop_called tm in \<open>simp_all add: pending_def indices_def\<close>)
  qed (auto intro!: accounted_same[OF a] simp: tm pending_def indices_def)
qed

lemma accounted_start: "mw \<noteq> [] \<Longrightarrow> accounted (start mw lst)"
  by (simp add: start_def enter_def accounted_def pending_def threads_def indices_def)

lemma accounted_runs:
  assumes "mw \<noteq> []" and "m \<in> set (runs k mw lst (start mw lst))"
  shows "accounted m"
  using accounted_start[OF assms(1)] assms(2)
  by (rule runs_invariant[where P = accounted, rotated]) (rule accounted_steps)
section \<open>The calls of the machine, in order\<close>

lemma calls_seen_quiet:
  "seen os = [] \<or> seen os = [Effect l] \<or> seen os = [Advanced a] \<Longrightarrow> calls (seen os) = []"
  by (auto simp: calls_def)






section \<open>On the machine, a handler is started by the call of next of the one before\<close>

lemma announced_same:
  "announced n (seen (observed m)) \<Longrightarrow> seen (observed m') = seen (observed m) \<Longrightarrow>
   announced n (seen (observed m'))"
  by simp

lemma announced_called:
  assumes an: "announced n (seen (observed m))" and a: "a < n"
    and ob: "observed m' = observed m @ [Seen (Advanced a),
               Seen (if n \<le> a + 1 then CalledLast else Invoked (a + 1))]"
  shows "announced n (seen (observed m'))"
proof -
  let ?h = "seen (observed m) @ [Advanced a]"
  have h: "announced n ?h" using an by (simp add: announced_snoc)
  have "seen (observed m') = ?h @ [if n \<le> a + 1 then CalledLast else Invoked (a + 1)]"
    using ob by (simp add: seen_append)
  moreover have "announced n (?h @ [if n \<le> a + 1 then CalledLast else Invoked (a + 1)])"
    unfolding announced_snoc[of n ?h] using h a by auto
  ultimately show ?thesis by simp
qed

lemma announced_steps:
  assumes an: "announced (length mw) (seen (observed m))" and s: "m' \<in> set (steps mw lst m)"
  shows "announced (length mw) (seen (observed m'))"
  using s
proof (cases rule: steps_cases)
  case idle
  from steps_idle_same(2)[OF idle s] an show ?thesis by simp
next
  case (running t rs)
  then show ?thesis
  proof (cases rule: perform_cases)
    case (await_called k)
    from an await_called(2,5) show ?thesis by (rule announced_called)
  next
    case (drop_called p)
    from an drop_called(2,5) show ?thesis by (rule announced_called)
  qed (use an in \<open>auto simp: seen_append announced_snoc\<close>)
qed

lemma announced_start: "announced (length mw) (seen (observed (start mw lst)))"
  by (simp add: start_def enter_def announced_def)

lemma announced_runs:
  assumes "m \<in> set (runs k mw lst (start mw lst))"
  shows "announced (length mw) (seen (observed m))"
  using announced_start assms
  by (rule runs_invariant[where P = "\<lambda>m. announced (length mw) (seen (observed m))", rotated])
    (rule announced_steps)
section \<open>Functions that are awaited complete before the function that awaits them resumes\<close>

lemma stacked_tl: "stacked i (x # xs) \<Longrightarrow> stacked i xs"
  by (cases xs) simp_all

lemma stacked_push: "stacked i (a # xs) \<Longrightarrow> stacked i (Suc a # a # xs)"
  by simp

lemma stacked_below:
  "stacked i xs \<Longrightarrow> j \<in> set xs \<Longrightarrow> i \<le> a \<Longrightarrow> a < j \<Longrightarrow> a \<in> set (tl (dropWhile (\<lambda>x. x \<noteq> j) xs))"
proof (induction xs arbitrary: j)
  case Nil
  then show ?case by simp
next
  case (Cons x xs)
  from Cons.prems(1) have st: "stacked i xs" by (rule stacked_tl)
  show ?case
  proof (cases "x = j")
    case True
    with Cons.prems have big: "i < x" by simp
    with Cons.prems(1) obtain y zs where xs: "xs = y # zs" and xy: "x = Suc y"
      by (cases xs) auto
    show ?thesis
    proof (cases "y = a")
      case True
      with \<open>x = j\<close> xs show ?thesis by simp
    next
      case False
      with xy True Cons.prems(4) have ay: "a < y" by simp
      have "y \<in> set xs" using xs by simp
      from Cons.IH[OF st this Cons.prems(3) ay] xs
      have "a \<in> set zs" by simp
      with True xs show ?thesis by simp
    qed
  next
    case False
    with Cons.prems(2) have j: "j \<in> set xs" by simp
    from Cons.IH[OF st j Cons.prems(3,4)] False show ?thesis by simp
  qed
qed

lemma stacked_has:
  assumes "stacked i xs" and "j \<in> set xs" and "i \<le> a" and "a < j"
  shows "a \<in> set xs"
proof -
  from stacked_below[OF assms] have "a \<in> set (tl (dropWhile (\<lambda>x. x \<noteq> j) xs))" .
  then have "a \<in> set (dropWhile (\<lambda>x. x \<noteq> j) xs)"
    by (cases "dropWhile (\<lambda>x. x \<noteq> j) xs") simp_all
  then show ?thesis by (rule set_dropWhileD)
qed

lemma awaitedFrom_subset:
  "awaitedFrom mw i m \<Longrightarrow> set (threads m') \<subseteq> set (threads m) \<Longrightarrow> awaitedFrom mw i m'"
  unfolding awaitedFrom_def by blast

lemma awaitedFrom_thread:
  assumes "awaitedFrom mw i m" and "set (threads m') \<subseteq> insert t' (set (threads m))"
    and "stacked i (indices t')"
    and "i \<le> at t' \<and> at t' < length mw \<longrightarrow> neverDrops (now t')"
    and "\<forall>(j, k) \<in> set (callers t'). i \<le> j \<longrightarrow> (\<forall>r. neverDrops (k r))"
  shows "awaitedFrom mw i m'"
  unfolding awaitedFrom_def
proof (intro ballI)
  fix u assume "u \<in> set (threads m')"
  with assms(2) have "u = t' \<or> u \<in> set (threads m)" by auto
  then show "stacked i (indices u)
        \<and> (i \<le> at u \<and> at u < length mw \<longrightarrow> neverDrops (now u))
        \<and> (\<forall>(j, k) \<in> set (callers u). i \<le> j \<longrightarrow> (\<forall>r. neverDrops (k r)))"
  proof
    assume "u = t'"
    with assms(3,4,5) show ?thesis by simp
  next
    assume "u \<in> set (threads m)"
    with assms(1) show ?thesis unfolding awaitedFrom_def by (rule bspec)
  qed
qed

lemma awaitedFrom_steps:
  assumes H: "\<forall>j. i \<le> j \<and> j < length mw \<longrightarrow> neverDrops (mw ! j)"
    and aw: "awaitedFrom mw i m" and s: "m' \<in> set (steps mw lst m)"
  shows "awaitedFrom mw i m'"
  using s
proof (cases rule: steps_cases)
  case idle
  from steps_idle_same(3)[OF idle s] have "set (threads m') \<subseteq> set (threads m)" by simp
  with aw show ?thesis by (rule awaitedFrom_subset)
next
  case (running t rs)
  note tm = threads_running[OF running(1)]
  from aw tm have all: "stacked i (indices t)
        \<and> (i \<le> at t \<and> at t < length mw \<longrightarrow> neverDrops (now t))
        \<and> (\<forall>(j, k) \<in> set (callers t). i \<le> j \<longrightarrow> (\<forall>r. neverDrops (k r)))"
    unfolding awaitedFrom_def by simp
  then have st: "stacked i (at t # map fst (callers t))" by (simp add: indices_def)
  from all have code: "neverDrops (now t)" if "i \<le> at t" "at t < length mw"
    using that by simp
  from all have cont: "neverDrops (k r)" if "(j, k) \<in> set (callers t)" "i \<le> j" for j k r
    using that by blast
  have same: "awaitedFrom mw i m'"
    if sub: "set (threads m') \<subseteq> insert (t\<lparr>now := c\<rparr>) (set (threads m))"
      and c: "i \<le> at t \<and> at t < length mw \<longrightarrow> neverDrops c" for c
  proof (rule awaitedFrom_thread[OF aw sub])
    show "stacked i (indices (t\<lparr>now := c\<rparr>))" using st by (simp add: indices_def)
    show "i \<le> at (t\<lparr>now := c\<rparr>) \<and> at (t\<lparr>now := c\<rparr>) < length mw
            \<longrightarrow> neverDrops (now (t\<lparr>now := c\<rparr>))"
      using c by simp
    show "\<forall>(j, k) \<in> set (callers (t\<lparr>now := c\<rparr>)). i \<le> j \<longrightarrow> (\<forall>r. neverDrops (k r))"
      using cont by auto
  qed
  from running show ?thesis
  proof (cases rule: perform_cases)
    case (return_end r os)
    have "set (threads m') \<subseteq> set (threads m)" unfolding return_end(6) tm by auto
    with aw show ?thesis by (rule awaitedFrom_subset)
  next
    case (return_to r j k cs os)
    let ?t = "t\<lparr>now := k r, at := j, callers := cs\<rparr>"
    show ?thesis
    proof (rule awaitedFrom_thread[OF aw, of _ ?t])
      show "set (threads m') \<subseteq> insert ?t (set (threads m))"
        unfolding return_to(6) tm by auto
      from st return_to(2) have "stacked i (j # map fst cs)"
        using stacked_tl[of i "at t" "j # map fst cs"] by simp
      then show "stacked i (indices ?t)" by (simp add: indices_def)
      show "i \<le> at ?t \<and> at ?t < length mw \<longrightarrow> neverDrops (now ?t)"
        using cont[of j k r] return_to(2) by simp
      show "\<forall>(j, k) \<in> set (callers ?t). i \<le> j \<longrightarrow> (\<forall>r. neverDrops (k r))"
        using cont return_to(2) by auto
    qed
  next
    case (log l p)
    show ?thesis
    proof (rule same[of p])
      show "set (threads m') \<subseteq> insert (t\<lparr>now := p\<rparr>) (set (threads m))"
        unfolding log(4) tm by auto
      show "i \<le> at t \<and> at t < length mw \<longrightarrow> neverDrops p" using code log(1) by auto
    qed
  next
    case (timer p)
    show ?thesis
    proof (rule same[of p])
      show "set (threads m') \<subseteq> insert (t\<lparr>now := p\<rparr>) (set (threads m))"
        unfolding timer(4) tm by auto
      show "i \<le> at t \<and> at t < length mw \<longrightarrow> neverDrops p" using code timer(1) by auto
    qed
  next
    case (await_last k e)
    show ?thesis
    proof (rule same[of "k (Inl e)"])
      show "set (threads m') \<subseteq> insert (t\<lparr>now := k (Inl e)\<rparr>) (set (threads m))"
        unfolding await_last(5) tm by auto
      show "i \<le> at t \<and> at t < length mw \<longrightarrow> neverDrops (k (Inl e))"
        using code await_last(1) by auto
    qed
  next
    case (await_refused k e)
    show ?thesis
    proof (rule same[of "k (Inl e)"])
      show "set (threads m') \<subseteq> insert (t\<lparr>now := k (Inl e)\<rparr>) (set (threads m))"
        unfolding await_refused(6) tm by auto
      show "i \<le> at t \<and> at t < length mw \<longrightarrow> neverDrops (k (Inl e))"
        using code await_refused(1) by auto
    qed
  next
    case (await_called k)
    let ?t = "t\<lparr>now := (if length mw \<le> at t + 1 then lst else mw ! (at t + 1)),
                at := at t + 1, callers := (at t, k) # callers t\<rparr>"
    show ?thesis
    proof (rule awaitedFrom_thread[OF aw, of _ ?t])
      show "set (threads m') \<subseteq> insert ?t (set (threads m))"
        unfolding await_called(6) tm by auto
      show "stacked i (indices ?t)" using st by (simp add: indices_def)
      show "i \<le> at ?t \<and> at ?t < length mw \<longrightarrow> neverDrops (now ?t)" using H by simp
      have "neverDrops (k r)" if "i \<le> at t" for r
        using code[OF that await_called(2)] await_called(1) by simp
      then show "\<forall>(j, k) \<in> set (callers ?t). i \<le> j \<longrightarrow> (\<forall>r. neverDrops (k r))"
        using cont by auto
    qed
  next
    case (drop_last p e)
    show ?thesis
    proof (rule same[of "Return (Inl e)"])
      show "set (threads m') \<subseteq> insert (t\<lparr>now := Return (Inl e)\<rparr>) (set (threads m))"
        unfolding drop_last(5) tm by auto
      show "i \<le> at t \<and> at t < length mw \<longrightarrow> neverDrops (Return (Inl e))" by simp
    qed
  next
    case (drop_refused p)
    from code drop_refused(1,2) have lt: "at t < i" by fastforce
    show ?thesis
    proof (rule same[of p])
      show "set (threads m') \<subseteq> insert (t\<lparr>now := p\<rparr>) (set (threads m))"
        unfolding drop_refused(6) tm by auto
      show "i \<le> at t \<and> at t < length mw \<longrightarrow> neverDrops p" using lt by simp
    qed
  next
    case (drop_called p)
    let ?u = "\<lparr>now = (if length mw \<le> at t + 1 then lst else mw ! (at t + 1)),
               at = at t + 1, callers = [], main = False\<rparr>"
    let ?m1 = "m\<lparr>ready := t\<lparr>now := p\<rparr> # rs\<rparr>"
    from code drop_called(1,2) have lt: "at t < i" by fastforce
    have "set (threads ?m1) \<subseteq> insert (t\<lparr>now := p\<rparr>) (set (threads m))"
      unfolding tm by (auto simp: threads_def)
    then have 1: "awaitedFrom mw i ?m1"
    proof (rule awaitedFrom_thread[OF aw])
      show "stacked i (indices (t\<lparr>now := p\<rparr>))" using st by (simp add: indices_def)
      show "i \<le> at (t\<lparr>now := p\<rparr>) \<and> at (t\<lparr>now := p\<rparr>) < length mw
              \<longrightarrow> neverDrops (now (t\<lparr>now := p\<rparr>))"
        using lt by simp
      show "\<forall>(j, k) \<in> set (callers (t\<lparr>now := p\<rparr>)). i \<le> j \<longrightarrow> (\<forall>r. neverDrops (k r))"
        using cont by auto
    qed
    show ?thesis
    proof (rule awaitedFrom_thread[OF 1, of _ ?u])
      show "set (threads m') \<subseteq> insert ?u (set (threads ?m1))"
        unfolding drop_called(6) by (auto simp: threads_def)
      show "stacked i (indices ?u)" using lt by (simp add: indices_def)
      show "i \<le> at ?u \<and> at ?u < length mw \<longrightarrow> neverDrops (now ?u)" using H by simp
      show "\<forall>(j, k) \<in> set (callers ?u). i \<le> j \<longrightarrow> (\<forall>r. neverDrops (k r))" by simp
    qed
  qed
qed

lemma awaitedFrom_start:
  "mw \<noteq> [] \<Longrightarrow> \<forall>j. i \<le> j \<and> j < length mw \<longrightarrow> neverDrops (mw ! j) \<Longrightarrow>
   awaitedFrom mw i (start mw lst)"
  by (simp add: start_def enter_def awaitedFrom_def threads_def indices_def)

lemma awaited_completed:
  assumes ac: "accounted m" and aw: "awaitedFrom mw i m"
    and r: "ready m = t # rs" and i: "i \<le> at t" and j: "j \<in> set (pending m)"
  shows "j \<le> at t"
proof (rule ccontr)
  assume "\<not> j \<le> at t"
  then have lt: "at t < j" by simp
  let ?rest = "rs @ resumes (micro m) @ timers m"
  have pm: "pending m = at t # map fst (callers t) @ concat (map indices ?rest)"
    using r by (simp add: pending_def threads_def indices_def)
  from aw r have st: "stacked i (indices t)" by (simp add: awaitedFrom_def threads_def)
  from j pm lt consider (own) "j \<in> set (map fst (callers t))"
    | (other) u where "u \<in> set ?rest" "j \<in> set (indices u)"
    by auto
  then have "at t \<in> set (map fst (callers t) @ concat (map indices ?rest))"
  proof cases
    case own
    from st have "stacked i (map fst (callers t))" unfolding indices_def by (rule stacked_tl)
    from stacked_has[OF this own i lt] show ?thesis by simp
  next
    case (other u)
    from aw r other(1) have "stacked i (indices u)"
      by (auto simp: awaitedFrom_def threads_def)
    from stacked_has[OF this other(2) i lt] other(1) show ?thesis by auto
  qed
  then have "0 < count_list (map fst (callers t) @ concat (map indices ?rest)) (at t)"
    by (simp only: count_list_pos)
  then have "1 < count_list (pending m) (at t)" unfolding pm by simp
  with ac show False unfolding accounted_def by (metis not_less)
qed

lemma awaited_runs:
  assumes ne: "mw \<noteq> []"
    and H: "\<forall>j. i \<le> j \<and> j < length mw \<longrightarrow> neverDrops (mw ! j)"
    and m: "m \<in> set (runs k mw lst (start mw lst))"
    and r: "ready m = t # rs" and i: "i \<le> at t" and j: "j \<in> set (pending m)"
  shows "j \<le> at t"
proof -
  have "awaitedFrom mw i (start mw lst)" using ne H by (rule awaitedFrom_start)
  then have "awaitedFrom mw i m"
    using m
    by (rule runs_invariant[where P = "awaitedFrom mw i", rotated])
      (rule awaitedFrom_steps[OF H])
  with accounted_runs[OF ne m] show ?thesis using r i j by (rule awaited_completed)
qed

section \<open>The machine agrees with the sequential model on handlers that await\<close>

lemma reach_trans: "reach mw lst a b \<Longrightarrow> reach mw lst b c \<Longrightarrow> reach mw lst a c"
  by (induction rule: reach.induct) (auto intro: reach.intros)

lemma reach_one: "steps mw lst m = [m'] \<Longrightarrow> reach mw lst m m'"
  by (blast intro: reach.intros)

lemma reach_runs: "reach mw lst m m' \<Longrightarrow> \<exists>n. runs n mw lst m = [m']"
proof (induction rule: reach.induct)
  case (here m)
  have "runs 0 mw lst m = [m]" by simp
  then show ?case by blast
next
  case (after m m' m'')
  then obtain n where "runs n mw lst m' = [m'']" by blast
  with after.hyps(1) have "runs (Suc n) mw lst m = [m'']" by simp
  then show ?case by blast
qed

lemma length_codes: "length (codes F) = length (middleware F)"
  by (simp add: codes_def)

lemma nth_codes: "i < length (middleware F) \<Longrightarrow> codes F ! i = codeOf ((middleware F ! i) (mkArgs F i))"
  by (simp add: codes_def)

lemma step_Log:
  "steps mw lst (solo c os \<lparr>now = Log l p, at = i, callers = cs, main = b\<rparr>)
     = [solo c (os @ [Seen (Effect l)]) \<lparr>now = p, at = i, callers = cs, main = b\<rparr>]"
  by (simp add: steps_def perform_def solo_def)

lemma step_wake:
  "steps mw lst \<lparr>counter = c, observed = os, ready = [], micro = [Resume t], timers = []\<rparr>
     = [solo c os t]"
  by (simp add: steps_def perform_def solo_def)

lemma step_Return_awaited:
  "steps mw lst (solo c os \<lparr>now = Return r, at = j, callers = (i, k) # cs, main = b\<rparr>)
     = [\<lparr>counter = c,
             observed = (if length mw \<le> j then os @ [LastSettled r] else os),
             ready = [], micro = [Resume \<lparr>now = k r, at = i, callers = cs, main = b\<rparr>], timers = []\<rparr>]"
  by (simp add: steps_def perform_def solo_def)

lemma step_AwaitNext_refused:
  "i < length mw \<Longrightarrow> int (i + 1) \<le> c \<Longrightarrow>
   steps mw lst (solo c os \<lparr>now = AwaitNext k, at = i, callers = cs, main = b\<rparr>)
     = [\<lparr>counter = c, observed = os @ [Seen (Advanced i)], ready = [],
             micro = [Resume \<lparr>now = k (Inl (MiddlewareNextError ''next() called multiple times'')),
                       at = i, callers = cs, main = b\<rparr>],
             timers = []\<rparr>]"
  by (simp add: steps_def perform_def solo_def advance_def enter_def)

lemma step_AwaitNext_last:
  "i < length mw \<Longrightarrow> c < int (i + 1) \<Longrightarrow> length mw \<le> i + 1 \<Longrightarrow>
   steps mw lst (solo c os \<lparr>now = AwaitNext k, at = i, callers = cs, main = b\<rparr>)
     = [solo (int (i + 1)) (os @ [Seen (Advanced i), Seen CalledLast])
               \<lparr>now = lst, at = i + 1, callers = (i, k) # cs, main = b\<rparr>]"
  by (simp add: steps_def perform_def solo_def advance_def enter_def)

lemma step_AwaitNext_handler:
  "c < int (i + 1) \<Longrightarrow> i + 1 < length mw \<Longrightarrow>
   steps mw lst (solo c os \<lparr>now = AwaitNext k, at = i, callers = cs, main = b\<rparr>)
     = [solo (int (i + 1)) (os @ [Seen (Advanced i), Seen (Invoked (i + 1))])
               \<lparr>now = mw ! (i + 1), at = i + 1, callers = (i, k) # cs, main = b\<rparr>]"
  by (simp add: steps_def perform_def solo_def advance_def enter_def)

lemma unit_user: "(s :: unit exec)\<lparr>user := u\<rparr> = s"
  by simp

lemma machine_simulates:
  fixes F :: "('e, unit, 'd) frame" and s :: "unit exec"
  assumes cap: "initialArgs F ''next'' = None"
  shows "i < length (middleware F) \<Longrightarrow> seen os = history s \<Longrightarrow>
    \<exists>os'. reach (codes F) (Return (fst (last F ())))
             (solo (lastCalledMiddlewareIndex s) os
                \<lparr>now = codeOf p, at = i, callers = cs, main = b\<rparr>)
             (solo (lastCalledMiddlewareIndex (snd (run (argsNext F (mkArgs F i)) p s))) os'
                \<lparr>now = Return (fst (run (argsNext F (mkArgs F i)) p s)), at = i, callers = cs,
                 main = b\<rparr>)
          \<and> seen os' = history (snd (run (argsNext F (mkArgs F i)) p s))"
proof (induction "length (middleware F) - i" arbitrary: i s os cs b p)
  case 0
  then show ?case by simp
next
  case (Suc d)
  let ?n = "length (middleware F)"
  let ?mw = "codes F"
  let ?r0 = "fst (last F ())"
  let ?lst = "Return ?r0 :: 'e code"
  let ?nxt = "argsNext F (mkArgs F i)"
  let ?c = lastCalledMiddlewareIndex
  from Suc.prems(1) have i: "i < ?n" .
  have inner: "seen os = history s \<Longrightarrow>
    \<exists>os'. reach ?mw ?lst
             (solo (?c s) os \<lparr>now = codeOf p, at = i, callers = cs, main = b\<rparr>)
             (solo (?c (snd (run ?nxt p s))) os'
                \<lparr>now = Return (fst (run ?nxt p s)), at = i, callers = cs, main = b\<rparr>)
          \<and> seen os' = history (snd (run ?nxt p s))"
    for p and s :: "unit exec" and os
  proof (induction p arbitrary: s os)
    case (Done r)
    have "reach ?mw ?lst (solo (?c s) os \<lparr>now = Return r, at = i, callers = cs, main = b\<rparr>)
        (solo (?c s) os \<lparr>now = Return r, at = i, callers = cs, main = b\<rparr>)"
      by (rule reach.here)
    with Done show ?case by auto
  next
    case (Emit l p)
    let ?s1 = "s\<lparr>history := history s @ [Effect l]\<rparr>"
    have "seen (os @ [Seen (Effect l)]) = history ?s1"
      using Emit.prems by (simp add: seen_append)
    from Emit.IH[OF this] obtain os' where
      r: "reach ?mw ?lst
             (solo (?c ?s1) (os @ [Seen (Effect l)]) \<lparr>now = codeOf p, at = i, callers = cs, main = b\<rparr>)
             (solo (?c (snd (run ?nxt p ?s1))) os'
                \<lparr>now = Return (fst (run ?nxt p ?s1)), at = i, callers = cs, main = b\<rparr>)"
      and o: "seen os' = history (snd (run ?nxt p ?s1))"
      by blast
    have "reach ?mw ?lst
        (solo (?c s) os \<lparr>now = codeOf (Emit l p), at = i, callers = cs, main = b\<rparr>)
        (solo (?c s) (os @ [Seen (Effect l)]) \<lparr>now = codeOf p, at = i, callers = cs, main = b\<rparr>)"
      by (rule reach_one) (simp add: step_Log)
    from reach_trans[OF this] r o show ?case by auto
  next
    case (Read f)
    have "f () \<in> range f" by simp
    from Read.IH[OF this Read.prems] show ?case by simp
  next
    case (Write g p)
    from Write.IH[OF Write.prems] show ?case by (simp add: unit_user)
  next
    case (CallNext k)
    let ?t = "\<lparr>now = AwaitNext (\<lambda>r. codeOf (k r)), at = i, callers = cs, main = b\<rparr>"
    let ?sa = "s\<lparr>history := history s @ [Advanced i]\<rparr>"
    have nxt: "?nxt s = invokeMiddleware F (i + 1) ?sa"
      by (rule argsNext_capability[OF cap])
    have len: "i < length ?mw" using i by (simp add: length_codes)
    consider (dup) "int (i + 1) \<le> ?c s"
      | (last) "?c s < int (i + 1)" "?n \<le> i + 1"
      | (handler) "?c s < int (i + 1)" "i + 1 < ?n"
      by linarith
    then obtain r s' os1 where
      call: "?nxt s = (r, s')"
      and r1: "reach ?mw ?lst (solo (?c s) os ?t)
                 (solo (?c s') os1 \<lparr>now = codeOf (k r), at = i, callers = cs, main = b\<rparr>)"
      and o1: "seen os1 = history s'"
    proof cases
      case dup
      let ?e = "Inl (MiddlewareNextError ''next() called multiple times'') :: 'e completion"
      have a: "?nxt s = (?e, ?sa)"
        using dup by (simp add: nxt invokeMiddleware_duplicate)
      have st1: "steps ?mw ?lst (solo (?c s) os ?t)
          = [\<lparr>counter = ?c s, observed = os @ [Seen (Advanced i)], ready = [],
                  micro = [Resume \<lparr>now = codeOf (k ?e), at = i, callers = cs, main = b\<rparr>], timers = []\<rparr>]"
        using len dup by (simp add: step_AwaitNext_refused)
      have st2: "steps ?mw ?lst
            \<lparr>counter = ?c s, observed = os @ [Seen (Advanced i)], ready = [],
             micro = [Resume \<lparr>now = codeOf (k ?e), at = i, callers = cs, main = b\<rparr>], timers = []\<rparr>
          = [solo (?c s) (os @ [Seen (Advanced i)])
                    \<lparr>now = codeOf (k ?e), at = i, callers = cs, main = b\<rparr>]"
        by (rule step_wake)
      have "reach ?mw ?lst (solo (?c s) os ?t)
          (solo (?c s) (os @ [Seen (Advanced i)])
             \<lparr>now = codeOf (k ?e), at = i, callers = cs, main = b\<rparr>)"
        by (rule reach.after[OF st1 reach_one[OF st2]])
      then have "reach ?mw ?lst (solo (?c s) os ?t)
          (solo (?c ?sa) (os @ [Seen (Advanced i)])
             \<lparr>now = codeOf (k ?e), at = i, callers = cs, main = b\<rparr>)"
        by simp
      moreover have "seen (os @ [Seen (Advanced i)]) = history ?sa"
        using CallNext.prems by (simp add: seen_append)
      ultimately show thesis using a by (rule that[rotated])
    next
      case last
      let ?s' = "s\<lparr>lastCalledMiddlewareIndex := int (i + 1),
                    history := history s @ [Advanced i, CalledLast]\<rparr>"
      have a: "?nxt s = (?r0, ?s')"
        using last by (simp add: nxt invokeMiddleware_last callLast_def split_beta)
      have l: "length ?mw \<le> i + 1" using last(2) by (simp add: length_codes)
      have st1: "steps ?mw ?lst (solo (?c s) os ?t)
          = [solo (int (i + 1)) (os @ [Seen (Advanced i), Seen CalledLast])
               \<lparr>now = ?lst, at = i + 1, callers = (i, \<lambda>r. codeOf (k r)) # cs, main = b\<rparr>]"
        using len last(1) l by (rule step_AwaitNext_last)
      have st2: "steps ?mw ?lst
            (solo (int (i + 1)) (os @ [Seen (Advanced i), Seen CalledLast])
               \<lparr>now = ?lst, at = i + 1, callers = (i, \<lambda>r. codeOf (k r)) # cs, main = b\<rparr>)
          = [\<lparr>counter = int (i + 1),
                  observed = os @ [Seen (Advanced i), Seen CalledLast, LastSettled ?r0],
                  ready = [],
                  micro = [Resume \<lparr>now = codeOf (k ?r0), at = i, callers = cs, main = b\<rparr>],
                  timers = []\<rparr>]"
        using l by (simp add: step_Return_awaited)
      have st3: "steps ?mw ?lst
            \<lparr>counter = int (i + 1),
             observed = os @ [Seen (Advanced i), Seen CalledLast, LastSettled ?r0],
             ready = [],
             micro = [Resume \<lparr>now = codeOf (k ?r0), at = i, callers = cs, main = b\<rparr>],
             timers = []\<rparr>
          = [solo (int (i + 1)) (os @ [Seen (Advanced i), Seen CalledLast, LastSettled ?r0])
               \<lparr>now = codeOf (k ?r0), at = i, callers = cs, main = b\<rparr>]"
        by (rule step_wake)
      have "reach ?mw ?lst (solo (?c s) os ?t)
          (solo (int (i + 1)) (os @ [Seen (Advanced i), Seen CalledLast, LastSettled ?r0])
               \<lparr>now = codeOf (k ?r0), at = i, callers = cs, main = b\<rparr>)"
        by (rule reach.after[OF st1 reach.after[OF st2 reach_one[OF st3]]])
      then have "reach ?mw ?lst (solo (?c s) os ?t)
          (solo (?c ?s') (os @ [Seen (Advanced i), Seen CalledLast, LastSettled ?r0])
               \<lparr>now = codeOf (k ?r0), at = i, callers = cs, main = b\<rparr>)"
        by simp
      moreover have "seen (os @ [Seen (Advanced i), Seen CalledLast, LastSettled ?r0]) = history ?s'"
        using CallNext.prems by (simp add: seen_append)
      ultimately show thesis using a by (rule that[rotated])
    next
      case handler
      let ?s2 = "s\<lparr>lastCalledMiddlewareIndex := int (i + 1),
                    history := history s @ [Advanced i, Invoked (i + 1)]\<rparr>"
      let ?q = "(middleware F ! (i + 1)) (mkArgs F (i + 1))"
      let ?run = "run (argsNext F (mkArgs F (i + 1))) ?q ?s2"
      let ?k = "\<lambda>r. codeOf (k r)"
      have a: "?nxt s = ?run"
        using handler by (simp add: nxt invokeMiddleware_handler)
      have l: "i + 1 < length ?mw" using handler(2) by (simp add: length_codes)
      have st: "steps ?mw ?lst (solo (?c s) os ?t)
          = [solo (int (i + 1)) (os @ [Seen (Advanced i), Seen (Invoked (i + 1))])
               \<lparr>now = codeOf ?q, at = i + 1, callers = (i, ?k) # cs, main = b\<rparr>]"
        using handler(1) l nth_codes[OF handler(2)] by (simp add: step_AwaitNext_handler)
      have "seen (os @ [Seen (Advanced i), Seen (Invoked (i + 1))]) = history ?s2"
        using CallNext.prems by (simp add: seen_append)
      have d: "d = ?n - (i + 1)" using Suc.hyps(2) by simp
      have so: "seen (os @ [Seen (Advanced i), Seen (Invoked (i + 1))]) = history ?s2"
        using CallNext.prems by (simp add: seen_append)
      from Suc.hyps(1)[of "i + 1" "os @ [Seen (Advanced i), Seen (Invoked (i + 1))]" ?s2
          ?q "(i, ?k) # cs" b, OF d handler(2) so]
      obtain os2 where
        r2: "reach ?mw ?lst
               (solo (int (i + 1)) (os @ [Seen (Advanced i), Seen (Invoked (i + 1))])
                  \<lparr>now = codeOf ?q, at = i + 1, callers = (i, ?k) # cs, main = b\<rparr>)
               (solo (?c (snd ?run)) os2
                  \<lparr>now = Return (fst ?run), at = i + 1, callers = (i, ?k) # cs, main = b\<rparr>)"
        and o2: "seen os2 = history (snd ?run)"
        by auto
      have st4: "steps ?mw ?lst
            (solo (?c (snd ?run)) os2
               \<lparr>now = Return (fst ?run), at = i + 1, callers = (i, ?k) # cs, main = b\<rparr>)
          = [\<lparr>counter = ?c (snd ?run), observed = os2, ready = [],
                  micro = [Resume \<lparr>now = codeOf (k (fst ?run)), at = i, callers = cs, main = b\<rparr>],
                  timers = []\<rparr>]"
        using l by (simp add: step_Return_awaited)
      have st5: "steps ?mw ?lst
            \<lparr>counter = ?c (snd ?run), observed = os2, ready = [],
             micro = [Resume \<lparr>now = codeOf (k (fst ?run)), at = i, callers = cs, main = b\<rparr>],
             timers = []\<rparr>
          = [solo (?c (snd ?run)) os2
               \<lparr>now = codeOf (k (fst ?run)), at = i, callers = cs, main = b\<rparr>]"
        by (rule step_wake)
      have "reach ?mw ?lst
            (solo (?c (snd ?run)) os2
               \<lparr>now = Return (fst ?run), at = i + 1, callers = (i, ?k) # cs, main = b\<rparr>)
            (solo (?c (snd ?run)) os2
               \<lparr>now = codeOf (k (fst ?run)), at = i, callers = cs, main = b\<rparr>)"
        by (rule reach.after[OF st4 reach_one[OF st5]])
      with reach_trans[OF reach_one[OF st] r2]
      have "reach ?mw ?lst (solo (?c s) os ?t)
            (solo (?c (snd ?run)) os2
               \<lparr>now = codeOf (k (fst ?run)), at = i, callers = cs, main = b\<rparr>)"
        by (rule reach_trans)
      moreover have "?nxt s = (fst ?run, snd ?run)" using a by simp
      ultimately show thesis using o2 by (intro that[of "fst ?run" "snd ?run" os2]) simp_all
    qed
    have "k r \<in> range k" by simp
    from CallNext.IH[OF this o1] obtain os' where
      r3: "reach ?mw ?lst
             (solo (?c s') os1 \<lparr>now = codeOf (k r), at = i, callers = cs, main = b\<rparr>)
             (solo (?c (snd (run ?nxt (k r) s'))) os'
                \<lparr>now = Return (fst (run ?nxt (k r) s')), at = i, callers = cs, main = b\<rparr>)"
      and o3: "seen os' = history (snd (run ?nxt (k r) s'))"
      by blast
    have "run ?nxt (CallNext k) s = run ?nxt (k r) s'" using call by simp
    with reach_trans[OF r1 r3] o3 show ?case by auto
  qed
  from inner[OF Suc.prems(2)] show ?case .
qed

lemma step_Return_main:
  "j < length mw \<Longrightarrow>
   steps mw lst (solo c os \<lparr>now = Return r, at = j, callers = [], main = True\<rparr>)
     = [\<lparr>counter = c, observed = os, ready = [], micro = [Settle r], timers = []\<rparr>]"
  by (simp add: steps_def perform_def solo_def)

lemma step_settle:
  "steps mw lst \<lparr>counter = c, observed = os, ready = [], micro = [Settle r], timers = []\<rparr>
     = [\<lparr>counter = c, observed = os @ [AllSettled r], ready = [], micro = [], timers = []\<rparr>]"
  by (simp add: steps_def)

lemma step_rest:
  "steps mw lst \<lparr>counter = c, observed = os, ready = [], micro = [], timers = []\<rparr> = []"
  by (simp add: steps_def)

text \<open>
  For a non-empty chain of handler bodies of the sequential model, with a terminal handler
  that only completes and \<^verbatim>\<open>args.next\<close> the closure of the executor, the machine has
  one run, which comes to rest; the events it has observed are the history of the
  sequential model, and the promise of \<^verbatim>\<open>processMiddleware\<close> settles last, with the
  completion of the sequential model.
\<close>

theorem machine_agrees_when_awaited:
  fixes F :: "('e, unit, 'd) frame"
  assumes cap: "initialArgs F ''next'' = None" and ne: "middleware F \<noteq> []"
  shows "\<exists>n c os.
           runs n (codes F) (Return (fst (last F ()))) (start (codes F) (Return (fst (last F ()))))
             = [\<lparr>counter = c, observed = os @ [AllSettled (fst (execute F fresh))],
                 ready = [], micro = [], timers = []\<rparr>]
           \<and> steps (codes F) (Return (fst (last F ())))
               \<lparr>counter = c, observed = os @ [AllSettled (fst (execute F fresh))],
                ready = [], micro = [], timers = []\<rparr> = []
           \<and> seen os = history (snd (execute F fresh))"
proof -
  let ?mw = "codes F"
  let ?lst = "Return (fst (last F ())) :: 'e code"
  let ?s = "\<lparr>history = [Invoked 0], user = (), lastCalledMiddlewareIndex = 0\<rparr> :: unit exec"
  let ?p = "(middleware F ! 0) (mkArgs F 0)"
  let ?run = "run (argsNext F (mkArgs F 0)) ?p ?s"
  let ?c = lastCalledMiddlewareIndex
  from ne have n: "0 < length (middleware F)" by simp
  then have len: "0 < length ?mw" by (simp add: length_codes)
  have st: "start ?mw ?lst
      = solo (?c ?s) [Seen (Invoked 0)] \<lparr>now = codeOf ?p, at = 0, callers = [], main = True\<rparr>"
    using len nth_codes[OF n] by (simp add: start_def enter_def solo_def)
  have "seen [Seen (Invoked 0)] = history ?s" by simp
  from machine_simulates[OF cap n this, of ?p "[]" True] obtain os where
    r: "reach ?mw ?lst
          (solo (?c ?s) [Seen (Invoked 0)] \<lparr>now = codeOf ?p, at = 0, callers = [], main = True\<rparr>)
          (solo (?c (snd ?run)) os \<lparr>now = Return (fst ?run), at = 0, callers = [], main = True\<rparr>)"
    and o: "seen os = history (snd ?run)"
    by blast
  have s1: "steps ?mw ?lst
          (solo (?c (snd ?run)) os \<lparr>now = Return (fst ?run), at = 0, callers = [], main = True\<rparr>)
      = [\<lparr>counter = ?c (snd ?run), observed = os, ready = [], micro = [Settle (fst ?run)],
          timers = []\<rparr>]"
    using len by (rule step_Return_main)
  have s2: "steps ?mw ?lst
          \<lparr>counter = ?c (snd ?run), observed = os, ready = [], micro = [Settle (fst ?run)],
           timers = []\<rparr>
      = [\<lparr>counter = ?c (snd ?run), observed = os @ [AllSettled (fst ?run)], ready = [],
          micro = [], timers = []\<rparr>]"
    by (rule step_settle)
  from reach_trans[OF r reach.after[OF s1 reach_one[OF s2]]] st
  have "reach ?mw ?lst (start ?mw ?lst)
      \<lparr>counter = ?c (snd ?run), observed = os @ [AllSettled (fst ?run)], ready = [],
       micro = [], timers = []\<rparr>"
    by simp
  then obtain k where k: "runs k ?mw ?lst (start ?mw ?lst)
      = [\<lparr>counter = ?c (snd ?run), observed = os @ [AllSettled (fst ?run)], ready = [],
          micro = [], timers = []\<rparr>]"
    using reach_runs by blast
  have e: "execute F fresh = (fst ?run, \<lparr>history = history (snd ?run), user = user (snd ?run)\<rparr>)"
    using n by (simp add: execute_nonempty[OF ne] invokeMiddleware_handler fresh_def split_beta)
  from k o e show ?thesis by (auto simp: step_rest)
qed

section \<open>A chain in which every handler advances once\<close>



section \<open>The counter is written before the handler is called\<close>



section \<open>No step is repeated\<close>

text \<open>
  C9. In every execution of a non-empty chain, whatever the handlers do: the steps
  recorded in the history the call adds are strictly increasing (the counter strictly
  increases on each successful step), they lie between 0 and the length of the chain,
  so there are at most length + 1 of them; the handler at each index is called at most
  once and the terminal handler is called at most once. The same holds on the machine of
  threads, after any number of its steps and in whatever order the jobs run and the timers
  fire, for handlers that drop the promise of \<^verbatim>\<open>next\<close> or wait for timers.
\<close>

theorem each_step_at_most_once:
  assumes "mw \<noteq> []" and "processMiddleware mw ia cx cl lg lastArg w = (r, w')"
  shows "(\<exists>h. history w' = history w @ h
           \<and> sorted_wrt (<) (stepsOf (length mw) h)
           \<and> set (stepsOf (length mw) h) \<subseteq> {0..length mw}
           \<and> length (stepsOf (length mw) h) \<le> length mw + 1
           \<and> (\<forall>i. count_list h (Invoked i) \<le> 1)
           \<and> count_list h CalledLast \<le> 1)
       \<and> (\<forall>(cw :: 'e code list) lst k. cw \<noteq> [] \<longrightarrow>
            (\<forall>m \<in> set (runs k cw lst (start cw lst)).
               sorted_wrt (<) (stepsOf (length cw) (seen (observed m)))
               \<and> set (stepsOf (length cw) (seen (observed m))) \<subseteq> {0..length cw}
               \<and> length (stepsOf (length cw) (seen (observed m))) \<le> length cw + 1
               \<and> (\<forall>i. count_list (seen (observed m)) (Invoked i) \<le> 1)
               \<and> count_list (seen (observed m)) CalledLast \<le> 1))"
proof -
  let ?n = "length mw"
  from assms obtain F s where
    ex: "extends ?n \<lparr>history = history w, user = user w, lastCalledMiddlewareIndex = - 1\<rparr> s"
    and hs: "history w' = history s"
    by (rule start_extends)
  from ex obtain h where h: "history s = history w @ h" "sorted_wrt (<) (stepsOf ?n h)"
    "\<forall>j \<in> set (stepsOf ?n h). - 1 < int j \<and> int j \<le> lastCalledMiddlewareIndex s"
    and c: "lastCalledMiddlewareIndex s \<le> max (- 1) (int ?n)"
    unfolding extends_def by auto
  have d: "distinct (stepsOf ?n h)" using h(2) by (simp add: strict_sorted_iff)
  have sub: "set (stepsOf ?n h) \<subseteq> {0..?n}" using h(3) c by fastforce
  have "length (stepsOf ?n h) = card (set (stepsOf ?n h))" using d by (simp add: distinct_card)
  also have "\<dots> \<le> card {0..?n}" using sub by (intro card_mono) simp_all
  finally have len: "length (stepsOf ?n h) \<le> ?n + 1" by simp
  have inv: "count_list h (Invoked i) \<le> 1" for i
    using count_Invoked_stepsOf[of h i ?n] count_list_distinct[OF d, of i] by linarith
  have lst: "count_list h CalledLast \<le> 1"
    using count_CalledLast_stepsOf[of h ?n] count_list_distinct[OF d, of ?n] by linarith
  have sequential: "\<exists>h. history w' = history w @ h
           \<and> sorted_wrt (<) (stepsOf (length mw) h)
           \<and> set (stepsOf (length mw) h) \<subseteq> {0..length mw}
           \<and> length (stepsOf (length mw) h) \<le> length mw + 1
           \<and> (\<forall>i. count_list h (Invoked i) \<le> 1)
           \<and> count_list h CalledLast \<le> 1"
    using hs h(1,2) sub len inv lst by auto
  from sequential machine_steps_once show ?thesis by blast
qed

theorem each_step_at_most_once_witness:
  "processMiddleware [advancingTwice ''c1'' ''c2''] Map.empty (Datum ()) (Datum ()) (Datum ())
       (Some spy) fresh
     = (Inl (MiddlewareNextError ''next() called multiple times'' :: unit error),
        \<lparr>history = [Invoked 0, Advanced 0, CalledLast, Effect ''c1'', Advanced 0], user = ()\<rparr>)
   \<and> sorted_wrt (<) (stepsOf 1 [Invoked 0, Advanced 0, CalledLast, Effect ''c1'', Advanced 0])
   \<and> stepsOf 1 [Invoked 0, Advanced 0, CalledLast, Effect ''c1'', Advanced 0] = [0, 1]
   \<and> count_list [Invoked 0, Advanced 0, CalledLast, Effect ''c1'', Advanced 0] (Invoked 0) \<le> 1
   \<and> count_list [Invoked 0, Advanced 0, CalledLast, Effect ''c1'', Advanced 0] CalledLast \<le> 1"
proof -
  have run: "processMiddleware [advancingTwice ''c1'' ''c2''] Map.empty (Datum ()) (Datum ())
       (Datum ()) (Some spy) fresh
     = (Inl (MiddlewareNextError ''next() called multiple times'' :: unit error),
        \<lparr>history = [Invoked 0, Advanced 0, CalledLast, Effect ''c1'', Advanced 0], user = ()\<rparr>)"
    by (simp add: eval_simps)
  show ?thesis
    using each_step_at_most_once[OF _ run] run by (simp add: fresh_def)
qed

section \<open>Code after an awaited call of next\<close>

text \<open>
  C3. A handler begins only when the one before it calls \<^verbatim>\<open>next\<close>: in the history
  that a call of \<^verbatim>\<open>processMiddleware\<close> adds, a call of the handler at index \<open>j + 1\<close>
  comes right after a call of the closure \<^verbatim>\<open>next\<close> of the handler at index \<open>j\<close>, and
  for a non-empty chain the call of the terminal handler comes right after a call of the
  closure of the last handler. This holds in the sequential model, and on the machine of
  threads at every moment of every run, whatever the handlers do and whether they await
  \<^verbatim>\<open>next\<close> or not. In the sequential model, whatever code \<open>q\<close> the handler at index
  \<open>i\<close> runs once its awaited call of \<^verbatim>\<open>args.next()\<close> has returned, it adds no call of
  a handler and no call of the terminal handler. On the machine, when the code of the
  handlers from an index \<open>a\<close> on awaits every call of \<^verbatim>\<open>next\<close> it makes, then at every
  moment of every run at which a function at an index from \<open>a\<close> on runs, no function at a
  later index is pending, that is, called and not completed: when the handler is back from
  its awaited call, the handlers after it and the terminal handler have completed. For the
  chain \<open>[A, B]\<close> where \<open>A\<close> has code before and after its awaited call and \<open>B\<close>
  advances at once, the order is: \<open>A\<close> before, \<open>B\<close>, the terminal handler, \<open>A\<close>
  after; so it is in the sequential model, on the machine when \<open>B\<close> awaits its call, on
  the machine when \<open>B\<close> does not await its call, as in the test suite of
  \<^verbatim>\<open>process.ts\<close>, and also when, in addition, the terminal handler waits for a timer:
  the terminal handler is called before the code of \<open>A\<close> after its await.
\<close>

theorem advance_is_nested:
  fixes F :: "('e, 'u, 'd) frame" and w :: "'u world" and s :: "'u exec"
    and cw :: "'x code list"
  shows "(\<exists>h. history (snd (execute F w)) = history w @ h
              \<and> (\<forall>k<length h. \<forall>j. h ! k = Invoked (Suc j) \<longrightarrow>
                    0 < k \<and> h ! (k - 1) = Advanced j)
              \<and> (\<forall>k<length h. h ! k = CalledLast \<longrightarrow> middleware F \<noteq> [] \<longrightarrow>
                    0 < k \<and> h ! (k - 1) = Advanced (length (middleware F) - 1)))
       \<and> calls (history (snd (run (argsNext F (mkArgs F i)) q
                                  (snd (argsNext F (mkArgs F i) s)))))
           = calls (history (snd (argsNext F (mkArgs F i) s)))
       \<and> (\<forall>k. \<forall>m \<in> set (runs k cw lst (start cw lst)).
             announced (length cw) (seen (observed m)))
       \<and> (cw \<noteq> [] \<and> (\<forall>j. a \<le> j \<and> j < length cw \<longrightarrow> neverDrops (cw ! j)) \<longrightarrow>
            (\<forall>k. \<forall>m \<in> set (runs k cw lst (start cw lst)).
               \<forall>t rs. ready m = t # rs \<and> a \<le> at t \<longrightarrow> (\<forall>j \<in> set (pending m). j \<le> at t)))
       \<and> execute (frameOf [wrapping ''A before'' ''A after'', advancing ''B''] Map.empty
                    :: (unit, unit, nat) frame) fresh
           = (Inr (),
              \<lparr>history = [Invoked 0, Effect ''A before'', Advanced 0, Invoked 1, Effect ''B'',
                          Advanced 1, CalledLast, Effect ''A after''],
               user = ()\<rparr>)
       \<and> map observed
            (runs 30 [awaiting ''A before'' ''A after'', Log ''B'' (AwaitNext Return)]
               (Log ''terminal'' (Return (Inr ())))
               (start [awaiting ''A before'' ''A after'', Log ''B'' (AwaitNext Return)]
                  (Log ''terminal'' (Return (Inr ()))) :: unit machine))
           = [[Seen (Invoked 0), Seen (Effect ''A before''), Seen (Advanced 0), Seen (Invoked 1),
               Seen (Effect ''B''), Seen (Advanced 1), Seen CalledLast, Seen (Effect ''terminal''),
               LastSettled (Inr ()), Seen (Effect ''A after''), AllSettled (Inr ())]]
       \<and> map observed
            (runs 30 [awaiting ''A before'' ''A after'', dropping ''B'']
               (Log ''terminal'' (Return (Inr ())))
               (start [awaiting ''A before'' ''A after'', dropping ''B'']
                  (Log ''terminal'' (Return (Inr ()))) :: unit machine))
           = [[Seen (Invoked 0), Seen (Effect ''A before''), Seen (Advanced 0), Seen (Invoked 1),
               Seen (Effect ''B''), Seen (Advanced 1), Seen CalledLast, Seen (Effect ''terminal''),
               LastSettled (Inr ()), Seen (Effect ''A after''), AllSettled (Inr ())]]
       \<and> map (\<lambda>m. seen (observed m))
            (runs 30 [awaiting ''A before'' ''A after'', dropping ''B'']
               (deferred ''terminal done'')
               (start [awaiting ''A before'' ''A after'', dropping ''B'']
                  (deferred ''terminal done'') :: unit machine))
           = [[Invoked 0, Effect ''A before'', Advanced 0, Invoked 1, Effect ''B'', Advanced 1,
               CalledLast, Effect ''A after'', Effect ''terminal done'']]"
proof -
  let ?n = "length (middleware F)"
  have "\<exists>h. history (snd (execute F w)) = history w @ h \<and> announced ?n h"
  proof (cases "middleware F = []")
    case True
    then have "history (snd (execute F w)) = history w @ [CalledLast]"
      by (simp add: execute_def processMiddleware_def callLast_def split_beta Let_def)
    moreover have "announced ?n [CalledLast]" using True by (simp add: announced_def)
    ultimately show ?thesis by blast
  next
    case False
    let ?init = "\<lparr>history = history w, user = user w, lastCalledMiddlewareIndex = - 1\<rparr>"
    have "\<exists>h'. history (snd (invokeMiddleware F 0 ?init)) = history w @ h' \<and> announced ?n h'"
      by (rule invokeMiddleware_announced[where h = "[]"]) (simp_all add: announced_Nil)
    then show ?thesis by (simp add: execute_nonempty[OF False] split_beta)
  qed
  then obtain h where h: "history (snd (execute F w)) = history w @ h" "announced ?n h"
    by blast
  from h(2) have a: "\<forall>k<length h. \<forall>j. h ! k = Invoked (Suc j) \<longrightarrow>
                    0 < k \<and> h ! (k - 1) = Advanced j"
    unfolding announced_def by blast
  from h(2) have b: "\<forall>k<length h. h ! k = CalledLast \<longrightarrow> middleware F \<noteq> [] \<longrightarrow>
                    0 < k \<and> h ! (k - 1) = Advanced (?n - 1)"
    unfolding announced_def by auto
  have c: "execute (frameOf [wrapping ''A before'' ''A after'', advancing ''B''] Map.empty
                    :: (unit, unit, nat) frame) fresh
           = (Inr (),
              \<lparr>history = [Invoked 0, Effect ''A before'', Advanced 0, Invoked 1, Effect ''B'',
                          Advanced 1, CalledLast, Effect ''A after''],
               user = ()\<rparr>)"
    by (simp add: execute_def frameOf_def eval_simps)
  from h(1) a b have sequential: "\<exists>h. history (snd (execute F w)) = history w @ h
              \<and> (\<forall>k<length h. \<forall>j. h ! k = Invoked (Suc j) \<longrightarrow>
                    0 < k \<and> h ! (k - 1) = Advanced j)
              \<and> (\<forall>k<length h. h ! k = CalledLast \<longrightarrow> middleware F \<noteq> [] \<longrightarrow>
                    0 < k \<and> h ! (k - 1) = Advanced (length (middleware F) - 1))"
    by blast
  have begun: "\<forall>k. \<forall>m \<in> set (runs k cw lst (start cw lst)).
      announced (length cw) (seen (observed m))"
    using announced_runs by blast
  have completed: "\<forall>k. \<forall>m \<in> set (runs k cw lst (start cw lst)).
      \<forall>t rs. ready m = t # rs \<and> a \<le> at t \<longrightarrow> (\<forall>j \<in> set (pending m). j \<le> at t)"
    if "cw \<noteq> []" and "\<forall>j. a \<le> j \<and> j < length cw \<longrightarrow> neverDrops (cw ! j)"
    using awaited_runs[OF that] by blast
  have r1: "map observed
            (runs 30 [awaiting ''A before'' ''A after'', Log ''B'' (AwaitNext Return)]
               (Log ''terminal'' (Return (Inr ())))
               (start [awaiting ''A before'' ''A after'', Log ''B'' (AwaitNext Return)]
                  (Log ''terminal'' (Return (Inr ()))) :: unit machine))
           = [[Seen (Invoked 0), Seen (Effect ''A before''), Seen (Advanced 0), Seen (Invoked 1),
               Seen (Effect ''B''), Seen (Advanced 1), Seen CalledLast, Seen (Effect ''terminal''),
               LastSettled (Inr ()), Seen (Effect ''A after''), AllSettled (Inr ())]]"
    by code_simp
  have r2: "map observed
            (runs 30 [awaiting ''A before'' ''A after'', dropping ''B'']
               (Log ''terminal'' (Return (Inr ())))
               (start [awaiting ''A before'' ''A after'', dropping ''B'']
                  (Log ''terminal'' (Return (Inr ()))) :: unit machine))
           = [[Seen (Invoked 0), Seen (Effect ''A before''), Seen (Advanced 0), Seen (Invoked 1),
               Seen (Effect ''B''), Seen (Advanced 1), Seen CalledLast, Seen (Effect ''terminal''),
               LastSettled (Inr ()), Seen (Effect ''A after''), AllSettled (Inr ())]]"
    by code_simp
  have r3: "map (\<lambda>m. seen (observed m))
            (runs 30 [awaiting ''A before'' ''A after'', dropping ''B'']
               (deferred ''terminal done'')
               (start [awaiting ''A before'' ''A after'', dropping ''B'']
                  (deferred ''terminal done'') :: unit machine))
           = [[Invoked 0, Effect ''A before'', Advanced 0, Invoked 1, Effect ''B'', Advanced 1,
               CalledLast, Effect ''A after'', Effect ''terminal done'']]"
    by code_simp
  from sequential after_advance_no_call[of F i q s] begun completed c r1 r2 r3
  show ?thesis by blast
qed

theorem advance_is_nested_witness:
  "execute (frameOf [wrapping ''A before'' ''A after'', advancing ''B''] Map.empty
              :: (unit, unit, nat) frame) fresh
     = (Inr (),
        \<lparr>history = [Invoked 0, Effect ''A before'', Advanced 0, Invoked 1, Effect ''B'',
                    Advanced 1, CalledLast, Effect ''A after''],
         user = ()\<rparr>)
   \<and> [Invoked 0, Effect ''A before'', Advanced 0, Invoked 1, Effect ''B'',
      Advanced 1, CalledLast, Effect ''A after''] ! 3 = Invoked (Suc 0)
   \<and> [Invoked 0, Effect ''A before'', Advanced 0, Invoked 1, Effect ''B'',
      Advanced 1, CalledLast, Effect ''A after''] ! (3 - 1) = Advanced 0
   \<and> [Invoked 0, Effect ''A before'', Advanced 0, Invoked 1, Effect ''B'',
      Advanced 1, CalledLast, Effect ''A after''] ! 6 = CalledLast
   \<and> [Invoked 0, Effect ''A before'', Advanced 0, Invoked 1, Effect ''B'',
      Advanced 1, CalledLast, Effect ''A after''] ! (6 - 1) = Advanced 1
   \<and> calls [Invoked 0, Effect ''A before'', Advanced 0, Invoked 1, Effect ''B'',
            Advanced 1, CalledLast, Effect ''A after'']
       = calls [Invoked 0, Effect ''A before'', Advanced 0, Invoked 1, Effect ''B'',
            Advanced 1, CalledLast]
   \<and> neverDrops (awaiting ''A before'' ''A after'' :: unit code)
   \<and> neverDrops (Log ''B'' (AwaitNext Return) :: unit code)
   \<and> map (\<lambda>m. (map at (ready m), map (\<lambda>t. aboutTo (now t)) (ready m), pending m))
        (runs 9 [awaiting ''A before'' ''A after'', Log ''B'' (AwaitNext Return)]
           (Log ''terminal'' (Return (Inr ())))
           (start [awaiting ''A before'' ''A after'', Log ''B'' (AwaitNext Return)]
              (Log ''terminal'' (Return (Inr ()))) :: unit machine))
       = [([0], [Some ''A after''], [0])]
   \<and> list_all (\<lambda>j. j \<le> 0)
        (pending (hd (runs 9 [awaiting ''A before'' ''A after'', Log ''B'' (AwaitNext Return)]
           (Log ''terminal'' (Return (Inr ())))
           (start [awaiting ''A before'' ''A after'', Log ''B'' (AwaitNext Return)]
              (Log ''terminal'' (Return (Inr ()))) :: unit machine))))"
proof -
  let ?F = "frameOf [wrapping ''A before'' ''A after'', advancing ''B''] Map.empty
              :: (unit, unit, nat) frame"
  let ?H = "[Invoked 0, Effect ''A before'', Advanced 0, Invoked 1, Effect ''B'',
             Advanced 1, CalledLast, Effect ''A after'']"
  let ?at = "\<lparr>history = [Invoked 0, Effect ''A before''], user = (),
              lastCalledMiddlewareIndex = 0\<rparr> :: unit exec"
  let ?cw = "[awaiting ''A before'' ''A after'', Log ''B'' (AwaitNext Return)] :: unit code list"
  let ?lst = "Log ''terminal'' (Return (Inr ())) :: unit code"
  let ?m = "hd (runs 9 ?cw ?lst (start ?cw ?lst))"
  note t = advance_is_nested[of ?F fresh 0 "Emit ''A after'' finish" ?at ?cw ?lst 0]
  have r: "execute ?F fresh = (Inr (), \<lparr>history = ?H, user = ()\<rparr>)"
    using t by blast
  from t obtain h where h: "history (snd (execute ?F fresh)) = history fresh @ h"
    and i: "\<forall>k<length h. \<forall>j. h ! k = Invoked (Suc j) \<longrightarrow> 0 < k \<and> h ! (k - 1) = Advanced j"
    and l: "\<forall>k<length h. h ! k = CalledLast \<longrightarrow> middleware ?F \<noteq> [] \<longrightarrow>
              0 < k \<and> h ! (k - 1) = Advanced (length (middleware ?F) - 1)"
    by blast
  from h r have hh: "h = ?H" by (simp add: fresh_def)
  have "?H ! 3 = Invoked (Suc 0)" by simp
  with i hh have a: "?H ! (3 - 1) = Advanced 0" by force
  have "?H ! 6 = CalledLast" by simp
  with l hh have b: "?H ! (6 - 1) = Advanced 1" by (force simp: frameOf_def)
  have n: "argsNext ?F (mkArgs ?F 0) ?at
      = (Inr (), \<lparr>history = [Invoked 0, Effect ''A before'', Advanced 0, Invoked 1, Effect ''B'',
                              Advanced 1, CalledLast], user = (),
                  lastCalledMiddlewareIndex = 2\<rparr>)"
    by (simp add: argsNext_def frameOf_def eval_simps)
  have "calls (history (snd (run (argsNext ?F (mkArgs ?F 0)) (Emit ''A after'' finish)
                                  (snd (argsNext ?F (mkArgs ?F 0) ?at)))))
           = calls (history (snd (argsNext ?F (mkArgs ?F 0) ?at)))"
    using t by blast
  then have c: "calls ?H = calls [Invoked 0, Effect ''A before'', Advanced 0, Invoked 1,
      Effect ''B'', Advanced 1, CalledLast]"
    by (simp add: n finish_def)
  have d: "neverDrops (awaiting ''A before'' ''A after'' :: unit code)"
    "neverDrops (Log ''B'' (AwaitNext Return) :: unit code)"
    by (simp_all add: awaiting_def split: sum.split)
  then have d': "?cw \<noteq> [] \<and> (\<forall>j. 0 \<le> j \<and> j < length ?cw \<longrightarrow> neverDrops (?cw ! j))"
    by (simp add: nth_Cons split: nat.split)
  have e: "map (\<lambda>m. (map at (ready m), map (\<lambda>t. aboutTo (now t)) (ready m), pending m))
        (runs 9 ?cw ?lst (start ?cw ?lst))
       = [([0], [Some ''A after''], [0])]"
    by code_simp
  then obtain m0 where m0: "runs 9 ?cw ?lst (start ?cw ?lst) = [m0]" by auto
  with e obtain t0 where rd: "ready m0 = [t0]" and at0: "at t0 = 0" by auto
  from t d' have "\<forall>k. \<forall>m \<in> set (runs k ?cw ?lst (start ?cw ?lst)).
               \<forall>t rs. ready m = t # rs \<and> 0 \<le> at t \<longrightarrow> (\<forall>j \<in> set (pending m). j \<le> at t)"
    by blast
  then have "\<forall>m \<in> set (runs 9 ?cw ?lst (start ?cw ?lst)).
               \<forall>t rs. ready m = t # rs \<and> 0 \<le> at t \<longrightarrow> (\<forall>j \<in> set (pending m). j \<le> at t)"
    by (rule spec)
  then have "\<forall>t rs. ready m0 = t # rs \<and> 0 \<le> at t \<longrightarrow> (\<forall>j \<in> set (pending m0). j \<le> at t)"
    unfolding m0 by simp
  from this[rule_format, of t0 "[]"] rd at0 have "\<forall>j \<in> set (pending m0). j \<le> 0" by simp
  with m0 have f: "list_all (\<lambda>j. j \<le> 0) (pending ?m)" by (simp add: list_all_iff)
  from r a b c d e f show ?thesis by simp
qed

text \<open>
  When a later handler does not await its call of \<^verbatim>\<open>next\<close>, the code after an awaited
  call can run before the rest of the chain has completed. In \<open>[A, B]\<close>, \<open>A\<close> awaits
  \<^verbatim>\<open>next\<close>, \<open>B\<close> calls \<^verbatim>\<open>next\<close> and drops the promise, and the terminal handler
  completes after a timer. The machine has one run. The terminal handler is called before
  the code of \<open>A\<close> after its await runs; when that code is about to run (after seven
  steps: the function at index 0 runs, the function at index 2, the terminal handler, is
  pending), the terminal handler has not completed; it completes after that code, and after
  the promise of \<^verbatim>\<open>processMiddleware\<close> has settled. After these steps the machine has
  nothing left to run.
\<close>

theorem dropped_advance_counterexample:
  "map observed
     (runs 30 [awaiting ''A before'' ''A after'', dropping ''B''] (deferred ''terminal done'')
        (start [awaiting ''A before'' ''A after'', dropping ''B''] (deferred ''terminal done'')
           :: unit machine))
     = [[Seen (Invoked 0), Seen (Effect ''A before''), Seen (Advanced 0), Seen (Invoked 1),
         Seen (Effect ''B''), Seen (Advanced 1), Seen CalledLast, Seen (Effect ''A after''),
         AllSettled (Inr ()), Seen (Effect ''terminal done''), LastSettled (Inr ())]]
   \<and> map (\<lambda>m. (map at (ready m), map (\<lambda>t. aboutTo (now t)) (ready m), pending m))
       (runs 7 [awaiting ''A before'' ''A after'', dropping ''B''] (deferred ''terminal done'')
          (start [awaiting ''A before'' ''A after'', dropping ''B''] (deferred ''terminal done'')
             :: unit machine))
     = [([0], [Some ''A after''], [0, 2])]
   \<and> map (\<lambda>m. length (steps [awaiting ''A before'' ''A after'', dropping ''B'']
                          (deferred ''terminal done'') m))
       (runs 30 [awaiting ''A before'' ''A after'', dropping ''B''] (deferred ''terminal done'')
          (start [awaiting ''A before'' ''A after'', dropping ''B''] (deferred ''terminal done'')
             :: unit machine))
     = [0]"
  by code_simp

end
